theory Spec2Isabelle
  imports Complex_Main
begin

section \<open>IDSCN: individual differential structural covariance networks\<close>

text \<open>
  A shallow embedding of \<^verbatim>\<open>src/idscn/main.py\<close>. The functions of the source that the
  properties below talk about are \<^verbatim>\<open>PCC\<close>, \<^verbatim>\<open>mix_group\<close>, \<^verbatim>\<open>Z_score\<close>, \<^verbatim>\<open>P\<close>,
  \<^verbatim>\<open>IDSCN\<close>, \<^verbatim>\<open>getTopLocs\<close>, \<^verbatim>\<open>subtype\<close>, \<^verbatim>\<open>getConnection\<close> and \<^verbatim>\<open>SCN\<close>.
  Library routines the source calls (pingouin's partial correlation, the normal
  survival function, numpy's arctanh, mean and standard deviation) are parameters of
  the definitions that call them; the Benjamini--Hochberg correction of statsmodels
  is modelled step by step.
\<close>

subsection \<open>numpy float64 values\<close>

text \<open>
  A float64 is a finite value, an infinity or a NaN. Finite values are carried as
  reals: the special values and their arithmetic follow IEEE 754, the rounding of
  finite results and their overflow are not modelled. Zero has no sign and divides
  as \<open>+0\<close>, which is the only zero the subtraction \<open>1 - r * r\<close> of \<^verbatim>\<open>Z_score\<close> produces.
\<close>

datatype npfloat = Fin real | PInf | NInf | NaN

fun np_neg :: "npfloat \<Rightarrow> npfloat" where
  "np_neg (Fin a) = Fin (- a)"
| "np_neg PInf = NInf"
| "np_neg NInf = PInf"
| "np_neg NaN = NaN"

fun np_add :: "npfloat \<Rightarrow> npfloat \<Rightarrow> npfloat" where
  "np_add NaN _ = NaN"
| "np_add _ NaN = NaN"
| "np_add (Fin a) (Fin b) = Fin (a + b)"
| "np_add PInf NInf = NaN"
| "np_add NInf PInf = NaN"
| "np_add PInf _ = PInf"
| "np_add NInf _ = NInf"
| "np_add (Fin a) PInf = PInf"
| "np_add (Fin a) NInf = NInf"

definition np_sub :: "npfloat \<Rightarrow> npfloat \<Rightarrow> npfloat" where
  "np_sub x y = np_add x (np_neg y)"

text \<open>The sign of an infinite product or quotient: the factor's sign applied to an infinity.\<close>

definition signed_inf :: "bool \<Rightarrow> npfloat" where
  "signed_inf positive = (if positive then PInf else NInf)"

fun np_mul :: "npfloat \<Rightarrow> npfloat \<Rightarrow> npfloat" where
  "np_mul NaN _ = NaN"
| "np_mul _ NaN = NaN"
| "np_mul (Fin a) (Fin b) = Fin (a * b)"
| "np_mul (Fin a) PInf = (if a = 0 then NaN else signed_inf (0 < a))"
| "np_mul (Fin a) NInf = (if a = 0 then NaN else signed_inf (a < 0))"
| "np_mul PInf (Fin b) = (if b = 0 then NaN else signed_inf (0 < b))"
| "np_mul NInf (Fin b) = (if b = 0 then NaN else signed_inf (b < 0))"
| "np_mul PInf PInf = PInf"
| "np_mul NInf NInf = PInf"
| "np_mul PInf NInf = NInf"
| "np_mul NInf PInf = NInf"

text \<open>
  Division of arrays never raises in numpy: a finite non-zero value over zero is an
  infinity, zero over zero is NaN (with a RuntimeWarning only).
\<close>

fun np_div :: "npfloat \<Rightarrow> npfloat \<Rightarrow> npfloat" where
  "np_div NaN _ = NaN"
| "np_div _ NaN = NaN"
| "np_div (Fin a) (Fin b) =
     (if b = 0 then (if a = 0 then NaN else signed_inf (0 < a)) else Fin (a / b))"
| "np_div (Fin a) PInf = Fin 0"
| "np_div (Fin a) NInf = Fin 0"
| "np_div PInf (Fin b) = signed_inf (0 \<le> b)"
| "np_div NInf (Fin b) = signed_inf (b < 0)"
| "np_div PInf PInf = NaN"
| "np_div PInf NInf = NaN"
| "np_div NInf PInf = NaN"
| "np_div NInf NInf = NaN"

fun np_abs :: "npfloat \<Rightarrow> npfloat" where
  "np_abs (Fin a) = Fin \<bar>a\<bar>"
| "np_abs PInf = PInf"
| "np_abs NInf = PInf"
| "np_abs NaN = NaN"

text \<open>Comparisons: every comparison with a NaN is false.\<close>

fun np_lt :: "npfloat \<Rightarrow> npfloat \<Rightarrow> bool" where
  "np_lt NaN _ = False"
| "np_lt _ NaN = False"
| "np_lt (Fin a) (Fin b) = (a < b)"
| "np_lt (Fin a) PInf = True"
| "np_lt (Fin a) NInf = False"
| "np_lt PInf _ = False"
| "np_lt NInf (Fin b) = True"
| "np_lt NInf PInf = True"
| "np_lt NInf NInf = False"

definition np_gt :: "npfloat \<Rightarrow> npfloat \<Rightarrow> bool" where
  "np_gt x y = np_lt y x"

fun np_le :: "npfloat \<Rightarrow> npfloat \<Rightarrow> bool" where
  "np_le NaN _ = False"
| "np_le _ NaN = False"
| "np_le x y = (\<not> np_lt y x)"

definition np_ge :: "npfloat \<Rightarrow> npfloat \<Rightarrow> bool" where
  "np_ge x y = np_le y x"


text \<open>A p-value proper: a finite value between 0 and 1.\<close>

fun is_probability :: "npfloat \<Rightarrow> bool" where
  "is_probability (Fin a) = (0 \<le> a \<and> a \<le> 1)"
| "is_probability _ = False"

subsection \<open>Two-dimensional arrays\<close>

text \<open>
  A two-dimensional ndarray is the list of its rows. \<open>shape\<close> is numpy's \<^verbatim>\<open>.shape\<close> for
  a rectangular array; \<open>square n M\<close> says that \<open>M\<close> is an \<open>n\<close> by \<open>n\<close> array.
\<close>

type_synonym matrix = "npfloat list list"

datatype py_error = AssertionError | IndexError | ValueError | TypeError

definition shape :: "'a list list \<Rightarrow> nat \<times> nat" where
  "shape M = (length M, (case M of [] \<Rightarrow> 0 | r # _ \<Rightarrow> length r))"

definition square :: "nat \<Rightarrow> 'a list list \<Rightarrow> bool" where
  "square n M = (length M = n \<and> list_all (\<lambda>r. length r = n) M)"

definition full :: "nat \<Rightarrow> nat \<Rightarrow> 'a \<Rightarrow> 'a list list" where
  "full r c v = replicate r (replicate c v)"

definition np_ones :: "nat \<times> nat \<Rightarrow> matrix" where
  "np_ones s = full (fst s) (snd s) (Fin 1)"

definition np_zeros :: "nat \<times> nat \<Rightarrow> matrix" where
  "np_zeros s = full (fst s) (snd s) (Fin 0)"

text \<open>Elementwise operations on arrays of one shape, and a scalar applied to an array.\<close>

definition elementwise :: "('a \<Rightarrow> 'b \<Rightarrow> 'c) \<Rightarrow> 'a list list \<Rightarrow> 'b list list \<Rightarrow> 'c list list" where
  "elementwise f A B = map2 (map2 f) A B"

definition map_matrix :: "('a \<Rightarrow> 'b) \<Rightarrow> 'a list list \<Rightarrow> 'b list list" where
  "map_matrix f A = map (map f) A"

text \<open>\<^verbatim>\<open>M.T\<close>: entry \<open>(j, i)\<close> of the transpose is entry \<open>(i, j)\<close> of \<open>M\<close>.\<close>

definition np_transpose :: "'a list list \<Rightarrow> 'a list list" where
  "np_transpose M = map (\<lambda>j. map (\<lambda>i. M ! i ! j) [0..<length M]) [0..<snd (shape M)]"

text \<open>\<^verbatim>\<open>M.flatten()\<close> lists the entries row by row; \<^verbatim>\<open>v.reshape(shape)\<close> cuts them into rows again.\<close>

definition flatten :: "'a list list \<Rightarrow> 'a list" where
  "flatten M = concat M"

definition reshape :: "'a list \<Rightarrow> nat \<times> nat \<Rightarrow> 'a list list" where
  "reshape v s = map (\<lambda>i. take (snd s) (drop (i * snd s) v)) [0..<fst s]"

text \<open>\<^verbatim>\<open>np.argwhere(cond)\<close>: the index pairs at which the condition holds, row by row.\<close>

definition argwhere :: "('a \<Rightarrow> bool) \<Rightarrow> 'a list list \<Rightarrow> (nat \<times> nat) list" where
  "argwhere cond M =
     concat (map (\<lambda>i. map (\<lambda>j. (i, j)) (filter (\<lambda>j. cond (M ! i ! j)) [0..<length (M ! i)]))
               [0..<length M])"

text \<open>\<^verbatim>\<open>np.count_nonzero(cond)\<close>: the number of entries at which the condition holds.\<close>

definition count_nonzero :: "('a \<Rightarrow> bool) \<Rightarrow> 'a list list \<Rightarrow> nat" where
  "count_nonzero cond M = length (filter cond (flatten M))"

text \<open>
  \<^verbatim>\<open>for i in range(n): M[i][i] = v\<close>. The write \<^verbatim>\<open>M[i][i]\<close> raises IndexError when the
  array has no row or no column \<open>i\<close>.
\<close>

fun set_diagonal :: "'a list list \<Rightarrow> 'a \<Rightarrow> nat list \<Rightarrow> py_error + 'a list list" where
  "set_diagonal M v [] = Inr M"
| "set_diagonal M v (i # rest) =
     (if i < length M \<and> i < length (M ! i)
      then set_diagonal (M[i := (M ! i)[i := v]]) v rest
      else Inl IndexError)"

subsection \<open>\<^verbatim>\<open>Z_score\<close>\<close>

text \<open>
  \<^verbatim>\<open>
  n = PCCn.shape[0]
  ones = np.ones(PCCn.shape, dtype=np.float_)
  d = ones - PCCn * PCCn
  for i in range(n):
      d[i][i] = 1
  Z = (n - 1) * delta_PCC / d
  for i in range(n):
      Z[i][i] = 1
  return Z
  \<close>
  \<open>Z_score_denominator\<close> is the array \<open>d\<close> after the first loop, the divisor of the
  division that follows.
\<close>

definition Z_score_denominator :: "matrix \<Rightarrow> py_error + matrix" where
  "Z_score_denominator PCCn =
     (let n = fst (shape PCCn);
          ones = np_ones (shape PCCn);
          d = elementwise np_sub ones (elementwise np_mul PCCn PCCn)
      in set_diagonal d (Fin 1) [0..<n])"

definition Z_score_quotient :: "matrix \<Rightarrow> matrix \<Rightarrow> matrix \<Rightarrow> matrix" where
  "Z_score_quotient PCCn delta_PCC d =
     (let n = fst (shape PCCn)
      in elementwise np_div (map_matrix (np_mul (Fin (real_of_int (int n - 1)))) delta_PCC) d)"

definition Z_score :: "matrix \<Rightarrow> matrix \<Rightarrow> py_error + matrix" where
  "Z_score PCCn delta_PCC =
     (if shape PCCn \<noteq> shape delta_PCC then Inl AssertionError
      else case Z_score_denominator PCCn of
             Inl e \<Rightarrow> Inl e
           | Inr d \<Rightarrow> set_diagonal (Z_score_quotient PCCn delta_PCC d) (Fin 1)
                        [0..<fst (shape PCCn)])"

text \<open>The array \<open>d\<close> of \<^verbatim>\<open>Z_score\<close> before its diagonal is overwritten, for an \<open>n\<close> by \<open>n\<close> input.\<close>

definition denominator0 :: "nat \<Rightarrow> matrix \<Rightarrow> matrix" where
  "denominator0 n PCCn = elementwise np_sub (np_ones (n, n)) (elementwise np_mul PCCn PCCn)"

subsection \<open>Data frames, \<^verbatim>\<open>PCC\<close> and \<^verbatim>\<open>mix_group\<close>\<close>

text \<open>
  A cohort table is a pandas DataFrame: its column names and its rows of values.
  \<^verbatim>\<open>pg.partial_corr(data=group, x=r1, y=r2, covar=covas).r.values[0]\<close> is the parameter
  \<open>partial_corr\<close>, a function of the table, the two region names and the covariates.
\<close>

record dataframe =
  columns :: "string list"
  rows :: "npfloat list list"

type_synonym estimator = "dataframe \<Rightarrow> string \<Rightarrow> string \<Rightarrow> string list \<Rightarrow> npfloat"

text \<open>
  \<^verbatim>\<open>
  pcorr = []
  for r1 in regions:
      pcorr_col = []
      for r2 in regions:
          if r1 != r2:
              results = pg.partial_corr(data=group, x=r1, y=r2, covar=covas)
              pcorr_col.append(results.r.values[0])
          else:
              pcorr_col.append(1.0)
      pcorr.append(pcorr_col)
  return np.array(pcorr).astype(np.float_)
  \<close>
  The loops carry, next to the rows built so far, the log of the estimator's calls:
  the pair \<open>(x, y)\<close> of each call, in the order the calls are made.
\<close>

fun PCC_inner ::
  "estimator \<Rightarrow> string list \<Rightarrow> dataframe \<Rightarrow> string \<Rightarrow> string list \<Rightarrow>
   npfloat list \<times> (string \<times> string) list \<Rightarrow> npfloat list \<times> (string \<times> string) list" where
  "PCC_inner partial_corr covas group_df r1 [] acc = acc"
| "PCC_inner partial_corr covas group_df r1 (r2 # rest) (pcorr_col, calls) =
     (if r1 \<noteq> r2
      then PCC_inner partial_corr covas group_df r1 rest
             (pcorr_col @ [partial_corr group_df r1 r2 covas], calls @ [(r1, r2)])
      else PCC_inner partial_corr covas group_df r1 rest (pcorr_col @ [Fin 1], calls))"

fun PCC_outer ::
  "estimator \<Rightarrow> string list \<Rightarrow> dataframe \<Rightarrow> string list \<Rightarrow> string list \<Rightarrow>
   matrix \<times> (string \<times> string) list \<Rightarrow> matrix \<times> (string \<times> string) list" where
  "PCC_outer partial_corr covas group_df regions [] acc = acc"
| "PCC_outer partial_corr covas group_df regions (r1 # rest) (pcorr, calls) =
     (case PCC_inner partial_corr covas group_df r1 regions ([], calls) of
        (pcorr_col, calls') \<Rightarrow>
          PCC_outer partial_corr covas group_df regions rest (pcorr @ [pcorr_col], calls'))"

definition PCC_logged ::
  "estimator \<Rightarrow> string list \<Rightarrow> string list \<Rightarrow> dataframe \<Rightarrow> matrix \<times> (string \<times> string) list" where
  "PCC_logged partial_corr covas regions group_df =
     PCC_outer partial_corr covas group_df regions regions ([], [])"

definition PCC :: "estimator \<Rightarrow> string list \<Rightarrow> string list \<Rightarrow> dataframe \<Rightarrow> matrix" where
  "PCC partial_corr covas regions group_df = fst (PCC_logged partial_corr covas regions group_df)"

definition partial_corr_calls ::
  "estimator \<Rightarrow> string list \<Rightarrow> string list \<Rightarrow> dataframe \<Rightarrow> (string \<times> string) list" where
  "partial_corr_calls partial_corr covas regions group_df =
     snd (PCC_logged partial_corr covas regions group_df)"

text \<open>
  \<^verbatim>\<open>
  prow = np.array([list(pati)])
  pati = pd.DataFrame(prow, columns=cols)
  mixed = pd.concat([ctrl, pati])
  \<close>
  The DataFrame constructor raises ValueError when the row has not one value per
  column name. The callers pass the control table's own column names, so the
  concatenation appends the row.
\<close>

definition mix_group :: "string list \<Rightarrow> dataframe \<Rightarrow> npfloat list \<Rightarrow> py_error + dataframe" where
  "mix_group cols ctrl pati =
     (if length pati \<noteq> length cols then Inl ValueError
      else Inr (ctrl\<lparr>rows := rows ctrl @ [pati]\<rparr>))"

subsection \<open>\<^verbatim>\<open>P\<close>: two-sided p-values and their FDR correction\<close>

text \<open>
  \<^verbatim>\<open>sps.norm.sf\<close> on an array: the survival function \<open>sf\<close> of the standard normal
  distribution is a parameter on the finite values; the tail beyond \<open>+inf\<close> is 0,
  beyond \<open>-inf\<close> is 1, and a NaN stays a NaN.
\<close>

fun np_sf :: "(real \<Rightarrow> real) \<Rightarrow> npfloat \<Rightarrow> npfloat" where
  "np_sf sf (Fin a) = Fin (sf a)"
| "np_sf sf PInf = Fin 0"
| "np_sf sf NInf = Fin 1"
| "np_sf sf NaN = NaN"

text \<open>\<^verbatim>\<open>np.minimum\<close> returns NaN as soon as one argument is a NaN.\<close>

definition np_minimum :: "npfloat \<Rightarrow> npfloat \<Rightarrow> npfloat" where
  "np_minimum a b = (if a = NaN \<or> b = NaN then NaN else if np_lt b a then b else a)"

fun accumulate_from :: "npfloat \<Rightarrow> npfloat list \<Rightarrow> npfloat list" where
  "accumulate_from a [] = []"
| "accumulate_from a (y # ys) = np_minimum a y # accumulate_from (np_minimum a y) ys"

fun minimum_accumulate :: "npfloat list \<Rightarrow> npfloat list" where
  "minimum_accumulate [] = []"
| "minimum_accumulate (x # xs) = x # accumulate_from x xs"

text \<open>
  \<^verbatim>\<open>np.argsort\<close>: the indices in ascending order of their values, NaN last. The
  indices of equal values are kept in their order here; the corrected p-values do
  not depend on the order among equal values.
\<close>

fun sorts_before :: "npfloat \<Rightarrow> npfloat \<Rightarrow> bool" where
  "sorts_before _ NaN = True"
| "sorts_before NaN _ = False"
| "sorts_before a b = np_le a b"

fun insert_index :: "npfloat list \<Rightarrow> nat \<Rightarrow> nat list \<Rightarrow> nat list" where
  "insert_index v i [] = [i]"
| "insert_index v i (j # js) =
     (if sorts_before (v ! i) (v ! j) then i # j # js else j # insert_index v i js)"

definition argsort :: "npfloat list \<Rightarrow> nat list" where
  "argsort v = foldr (insert_index v) [0..<length v] []"

text \<open>\<^verbatim>\<open>out[ind] = vals\<close>: the value at position \<open>k\<close> of \<open>vals\<close> is stored at index \<open>ind[k]\<close>.\<close>

definition put :: "'a list \<Rightarrow> nat list \<Rightarrow> 'a list \<Rightarrow> 'a list" where
  "put out ind vals = fold (\<lambda>(i, x) a. a[i := x]) (zip ind vals) out"

text \<open>
  Modelled from the spec: the Benjamini--Hochberg correction, which the source takes
  from \<^verbatim>\<open>statsmodels.stats.multitest.fdrcorrection\<close> (not a file of this repository).
  The steps are those of that routine for the corrected p-values, its second result:
  \<^verbatim>\<open>
  pvals_sortind = np.argsort(pvals)
  pvals_sorted = np.take(pvals, pvals_sortind)
  ecdffactor = np.arange(1, nobs + 1) / float(nobs)
  pvals_corrected_raw = pvals_sorted / ecdffactor
  pvals_corrected = np.minimum.accumulate(pvals_corrected_raw[::-1])[::-1]
  pvals_corrected[pvals_corrected > 1] = 1
  pvals_corrected_ = np.empty_like(pvals_corrected)
  pvals_corrected_[pvals_sortind] = pvals_corrected
  \<close>
  The array made by \<^verbatim>\<open>np.empty_like\<close> is overwritten at every index.
\<close>

definition fdrcorrection :: "npfloat list \<Rightarrow> npfloat list" where
  "fdrcorrection pvals =
     (let nobs = length pvals;
          pvals_sortind = argsort pvals;
          pvals_sorted = map (\<lambda>i. pvals ! i) pvals_sortind;
          ecdffactor = map (\<lambda>k. Fin (real (k + 1) / real nobs)) [0..<nobs];
          pvals_corrected_raw = map2 np_div pvals_sorted ecdffactor;
          pvals_corrected = rev (minimum_accumulate (rev pvals_corrected_raw));
          clipped = map (\<lambda>x. if np_gt x (Fin 1) then Fin 1 else x) pvals_corrected
      in put (replicate nobs NaN) pvals_sortind clipped)"

text \<open>
  \<^verbatim>\<open>
  p = sps.norm.sf(abs(Z)) * 2
  shape = p.shape
  correct_P = smsm.fdrcorrection(p.flatten())
  return p, correct_P[1].reshape(shape)
  \<close>
\<close>

definition P :: "(real \<Rightarrow> real) \<Rightarrow> matrix \<Rightarrow> matrix \<times> matrix" where
  "P sf Z =
     (let p = map_matrix (\<lambda>z. np_mul (np_sf sf (np_abs z)) (Fin 2)) Z
      in (p, reshape (fdrcorrection (flatten p)) (shape p)))"

subsection \<open>\<^verbatim>\<open>IDSCN\<close>\<close>

text \<open>
  The result frames of \<^verbatim>\<open>IDSCN\<close>: \<^verbatim>\<open>df\<close>, made with the region names as columns and
  as index, and \<^verbatim>\<open>df_n\<close>, made with the columns \<^verbatim>\<open>subject\<close> and \<^verbatim>\<open>n\<close> and no row.
  A cell holds a float, a string or a count.
\<close>

datatype cell = Num npfloat | Text string | Count nat

record frame =
  ncols :: nat
  cells :: "cell list list"

text \<open>\<^verbatim>\<open>df.iloc[:, :] = M\<close> raises ValueError unless \<open>M\<close> has the frame's shape.\<close>

definition iloc_assign :: "frame \<Rightarrow> matrix \<Rightarrow> py_error + frame" where
  "iloc_assign df M =
     (if (length (cells df), (if cells df = [] then 0 else ncols df)) \<noteq> shape M
      then Inl ValueError
      else Inr (df\<lparr>cells := map_matrix Num M\<rparr>))"

text \<open>
  \<^verbatim>\<open>df.loc[len(df.index)] = row\<close> with a label that is not in the index adds a row;
  pandas raises ValueError (cannot set a row with mismatched columns) unless the
  list has one value per column.
\<close>

definition loc_append :: "frame \<Rightarrow> cell list \<Rightarrow> py_error + frame" where
  "loc_append df row =
     (if length row \<noteq> ncols df then Inl ValueError
      else Inr (df\<lparr>cells := cells df @ [row]\<rparr>))"

text \<open>The state of the run: the two frames and the files written so far, oldest first.\<close>

record idscn_state =
  df :: frame
  df_n :: frame
  written :: "(string \<times> cell list list) list"

definition to_csv :: "string \<Rightarrow> frame \<Rightarrow> (string \<times> cell list list) list \<Rightarrow> (string \<times> cell list list) list" where
  "to_csv path fr files = files @ [(path, cells fr)]"

definition bind :: "py_error + 'a \<Rightarrow> ('a \<Rightarrow> py_error + 'b) \<Rightarrow> py_error + 'b" where
  "bind r f = (case r of Inl e \<Rightarrow> Inl e | Inr x \<Rightarrow> f x)"

text \<open>
  One subject: the perturbed network, the Z matrix and the two p-value matrices.
  \<^verbatim>\<open>
  mixed_group = mix_group(ctrl[0] + ctrl[1], ctrl[2], p)
  PCCn_1 = PCC(ctrl[0], ctrl[1], mixed_group)
  delta_PCC = PCCn_1 - PCCn
  Z = Z_score(PCCn, delta_PCC)
  ori_P, correct_P = P(Z)
  \<close>
\<close>

definition IDSCN_subject ::
  "estimator \<Rightarrow> (real \<Rightarrow> real) \<Rightarrow> string list \<Rightarrow> string list \<Rightarrow> dataframe \<Rightarrow> matrix \<Rightarrow>
   npfloat list \<Rightarrow> py_error + (matrix \<times> matrix \<times> matrix \<times> matrix)" where
  "IDSCN_subject partial_corr sf covas regions ctrl PCCn p =
     bind (mix_group (covas @ regions) ctrl p) (\<lambda>mixed_group.
       let PCCn_1 = PCC partial_corr covas regions mixed_group;
           delta_PCC = elementwise np_sub PCCn_1 PCCn
       in bind (Z_score PCCn delta_PCC) (\<lambda>Z.
            case P sf Z of (ori_P, correct_P) \<Rightarrow> Inr (PCCn_1, Z, ori_P, correct_P)))"

text \<open>
  The loop over the patients. After the four matrices of a subject are written, the
  source executes
  \<^verbatim>\<open>df.loc[len(df.index)] = [sub, np.count_nonzero(correct_P < 0.05)]\<close>
  on \<^verbatim>\<open>df\<close>; \<^verbatim>\<open>df_n\<close> is not touched in the loop.
\<close>

fun IDSCN_loop ::
  "estimator \<Rightarrow> (real \<Rightarrow> real) \<Rightarrow> string \<Rightarrow> string list \<Rightarrow> string list \<Rightarrow> dataframe \<Rightarrow> matrix \<Rightarrow>
   (string \<times> npfloat list) list \<Rightarrow> idscn_state \<Rightarrow> py_error + idscn_state" where
  "IDSCN_loop partial_corr sf outPath covas regions ctrl PCCn [] st = Inr st"
| "IDSCN_loop partial_corr sf outPath covas regions ctrl PCCn ((sub, p) # rest) st =
     bind (IDSCN_subject partial_corr sf covas regions ctrl PCCn p) (\<lambda>(PCCn_1, Z, ori_P, correct_P).
     bind (iloc_assign (df st) (np_transpose PCCn_1)) (\<lambda>df1.
     bind (iloc_assign df1 (np_transpose Z)) (\<lambda>df2.
     bind (iloc_assign df2 (np_transpose ori_P)) (\<lambda>df3.
     bind (iloc_assign df3 (np_transpose correct_P)) (\<lambda>df4.
     bind (loc_append df4 [Text sub, Count (count_nonzero (\<lambda>x. np_lt x (Fin (5 / 100))) correct_P)])
       (\<lambda>df5.
         IDSCN_loop partial_corr sf outPath covas regions ctrl PCCn rest
           (st\<lparr>df := df5,
               written :=
                 to_csv (outPath @ ''/'' @ sub @ ''/'' @ sub @ ''_P_FDR.csv'') df4
                   (to_csv (outPath @ ''/'' @ sub @ ''/'' @ sub @ ''_P.csv'') df3
                     (to_csv (outPath @ ''/'' @ sub @ ''/'' @ sub @ ''_Z.csv'') df2
                       (to_csv (outPath @ ''/'' @ sub @ ''/'' @ sub @ ''_PCCn+1.csv'') df1
                         (written st))))\<rparr>)))))))"

text \<open>
  \<^verbatim>\<open>IDSCN\<close> from the point where the two tables have been read: \<open>ctrl\<close> is the control
  table, \<open>pati_subs\<close> and \<open>pa\<close> are the patients' identifiers and rows. The result is
  the list of the files written, \<^verbatim>\<open>count_significant.csv\<close> last. The two text files
  of the covariate and region names and the directories made for the subjects are
  left out. An exception ends the run: the result is then the error.
\<close>

definition IDSCN ::
  "estimator \<Rightarrow> (real \<Rightarrow> real) \<Rightarrow> string \<Rightarrow> string list \<Rightarrow> string list \<Rightarrow> dataframe \<Rightarrow>
   string list \<Rightarrow> npfloat list list \<Rightarrow> py_error + (string \<times> cell list list) list" where
  "IDSCN partial_corr sf outPath covas regions ctrl pati_subs pa =
     (let df0 = \<lparr>ncols = length regions,
                 cells = full (length regions) (length regions) (Num NaN)\<rparr>;
          PCCn = PCC partial_corr covas regions ctrl
      in bind (iloc_assign df0 (np_transpose PCCn)) (\<lambda>df1.
           let files = to_csv (outPath @ ''/PCCn.csv'') df1 [];
               df_n0 = \<lparr>ncols = 2, cells = []\<rparr>
           in bind (IDSCN_loop partial_corr sf outPath covas regions ctrl PCCn (zip pati_subs pa)
                      \<lparr>df = df1, df_n = df_n0, written = files\<rparr>) (\<lambda>st.
                Inr (to_csv (outPath @ ''/count_significant.csv'') (df_n st) (written st)))))"

text \<open>The rows of a written file: those of the last write to its path.\<close>

definition file_rows :: "(string \<times> cell list list) list \<Rightarrow> string \<Rightarrow> cell list list option" where
  "file_rows files path = map_of (rev files) path"

subsection \<open>\<^verbatim>\<open>getTopLocs\<close>\<close>

text \<open>
  A rank group as \<^verbatim>\<open>draw_signifcant\<close> builds it: the significance count, then the pair
  of the number of edges with that count and the list of those edges.
  \<^verbatim>\<open>
  i = 0
  c = 0
  locs = []
  while c < num:
      c += count[i][1][0]
      locs += count[i][1][1]
      i += 1
  return locs
  \<close>
  Reading \<^verbatim>\<open>count[i]\<close> past the last group raises IndexError.
\<close>

type_synonym 'k rank_group = "'k \<times> int \<times> (nat \<times> nat) list"

function getTopLocs_loop ::
  "'k rank_group list \<Rightarrow> int \<Rightarrow> nat \<Rightarrow> int \<Rightarrow> (nat \<times> nat) list \<Rightarrow> py_error + (nat \<times> nat) list" where
  "getTopLocs_loop count num i c locs =
     (if c < num
      then (if i < length count
            then getTopLocs_loop count num (i + 1) (c + fst (snd (count ! i)))
                   (locs @ snd (snd (count ! i)))
            else Inl IndexError)
      else Inr locs)"
  by pat_completeness auto
termination
  by (relation "measure (\<lambda>(count, num, i, c, locs). length count - i)") auto

definition getTopLocs :: "'k rank_group list \<Rightarrow> int \<Rightarrow> py_error + (nat \<times> nat) list" where
  "getTopLocs count num = getTopLocs_loop count num 0 0 []"

subsection \<open>The significance counts of \<^verbatim>\<open>subtype\<close> and \<^verbatim>\<open>getConnection\<close>\<close>

text \<open>
  \<^verbatim>\<open>
  rows, cols = zip(*signi_conn_index)
  significant[rows, cols] = significant[rows, cols] + 1
  \<close>
  reads the entries at the index pairs, adds one to each and stores them back; an
  index pair outside the array raises IndexError.
\<close>

definition set_entry :: "'a list list \<Rightarrow> nat \<Rightarrow> nat \<Rightarrow> 'a \<Rightarrow> 'a list list" where
  "set_entry M i j v = M[i := (M ! i)[j := v]]"

definition fancy_increment :: "matrix \<Rightarrow> (nat \<times> nat) list \<Rightarrow> py_error + matrix" where
  "fancy_increment S ind =
     (if list_all (\<lambda>(i, j). i < fst (shape S) \<and> j < snd (shape S)) ind
      then Inr (fold (\<lambda>((i, j), v) A. set_entry A i j v)
                  (zip ind (map (\<lambda>(i, j). np_add (S ! i ! j) (Fin 1)) ind)) S)
      else Inl IndexError)"

text \<open>
  The loop of \<^verbatim>\<open>subtype\<close> over the patients' Z matrices (read back from the files):
  \<^verbatim>\<open>
  if significant is None:
      significant = np.zeros(Z.shape)
  _, correct_P = P(Z)
  signi_conn_index = np.argwhere(correct_P < 0.05)
  if signi_conn_index.shape[0] > 0:
      rows, cols = zip(*signi_conn_index)
      significant[rows, cols] = significant[rows, cols] + 1
  \<close>
\<close>

fun subtype_significant ::
  "(real \<Rightarrow> real) \<Rightarrow> matrix list \<Rightarrow> matrix option \<Rightarrow> py_error + matrix option" where
  "subtype_significant sf [] significant = Inr significant"
| "subtype_significant sf (Z # rest) significant =
     (let significant1 = (case significant of None \<Rightarrow> np_zeros (shape Z) | Some S \<Rightarrow> S);
          correct_P = snd (P sf Z);
          signi_conn_index = argwhere (\<lambda>x. np_lt x (Fin (5 / 100))) correct_P
      in if length signi_conn_index > 0
         then bind (fancy_increment significant1 signi_conn_index)
                (\<lambda>significant2. subtype_significant sf rest (Some significant2))
         else subtype_significant sf rest (Some significant1))"

text \<open>
  The loop of \<^verbatim>\<open>getConnection\<close>:
  \<^verbatim>\<open>
  _P, correct_P = P(Z)
  signi_conn_index = np.argwhere(_P < 0.05)
  if fdr:
      signi_conn_index = np.argwhere(correct_P < 0.05)
  \<close>
  and the rest as in \<^verbatim>\<open>subtype\<close>; \<open>raw_P\<close> stands for \<^verbatim>\<open>_P\<close>. The parameter \<^verbatim>\<open>fdr\<close> is \<open>None\<close> when the caller
  leaves it out; its default is \<^verbatim>\<open>False\<close>.
\<close>

fun getConnection_significant ::
  "(real \<Rightarrow> real) \<Rightarrow> bool \<Rightarrow> matrix list \<Rightarrow> matrix option \<Rightarrow> py_error + matrix option" where
  "getConnection_significant sf fdr [] significant = Inr significant"
| "getConnection_significant sf fdr (Z # rest) significant =
     (let significant1 = (case significant of None \<Rightarrow> np_zeros (shape Z) | Some S \<Rightarrow> S);
          raw_P = fst (P sf Z);
          correct_P = snd (P sf Z);
          signi_conn_index0 = argwhere (\<lambda>x. np_lt x (Fin (5 / 100))) raw_P;
          signi_conn_index =
            (if fdr then argwhere (\<lambda>x. np_lt x (Fin (5 / 100))) correct_P else signi_conn_index0)
      in if length signi_conn_index > 0
         then bind (fancy_increment significant1 signi_conn_index)
                (\<lambda>significant2. getConnection_significant sf fdr rest (Some significant2))
         else getConnection_significant sf fdr rest (Some significant1))"

definition getConnection ::
  "(real \<Rightarrow> real) \<Rightarrow> bool option \<Rightarrow> matrix list \<Rightarrow> py_error + matrix option" where
  "getConnection sf fdr Zs =
     getConnection_significant sf (case fdr of None \<Rightarrow> False | Some b \<Rightarrow> b) Zs None"

definition subtype :: "(real \<Rightarrow> real) \<Rightarrow> matrix list \<Rightarrow> py_error + matrix option" where
  "subtype sf Zs = subtype_significant sf Zs None"

text \<open>The number of matrices of a list whose entry \<open>(i, j)\<close> is below 0.05.\<close>

definition significant_count :: "matrix list \<Rightarrow> nat \<Rightarrow> nat \<Rightarrow> nat" where
  "significant_count Ps i j = length (filter (\<lambda>M. np_lt (M ! i ! j) (Fin (5 / 100))) Ps)"

subsection \<open>\<^verbatim>\<open>SCN\<close>: the permutation test\<close>

text \<open>
  Both result loops of \<^verbatim>\<open>SCN\<close> have the form
  \<^verbatim>\<open>
  for i in range(n):
      for j in range(i + 1, n):
          v = ...
          M[i, j] = v
          M[j, i] = v
  \<close>
  on an \<open>n\<close> by \<open>n\<close> array of zeros.
\<close>

definition mirror_fill :: "(nat \<Rightarrow> nat \<Rightarrow> 'a) \<Rightarrow> nat \<Rightarrow> 'a list list \<Rightarrow> 'a list list" where
  "mirror_fill f n M =
     fold (\<lambda>i A. fold (\<lambda>j B. set_entry (set_entry B i j (f i j)) j i (f i j)) [i + 1..<n] A)
       [0..<n] M"

text \<open>\<^verbatim>\<open>D_permuted[:, i, j]\<close>: the null samples of the edge \<open>(i, j)\<close>, one per permutation.\<close>

definition samples :: "matrix list \<Rightarrow> nat \<Rightarrow> nat \<Rightarrow> npfloat list" where
  "samples D_permuted i j = map (\<lambda>D. D ! i ! j) D_permuted"

text \<open>
  \<^verbatim>\<open>
  z = (D_obs[i, j] - np.mean(D_permuted[:, i, j])) / np.std(D_permuted[:, i, j])
  \<close>
  with \<^verbatim>\<open>np.mean\<close> and \<^verbatim>\<open>np.std\<close> as parameters.
\<close>

definition z_matrix ::
  "(npfloat list \<Rightarrow> npfloat) \<Rightarrow> (npfloat list \<Rightarrow> npfloat) \<Rightarrow> matrix \<Rightarrow> matrix list \<Rightarrow> nat \<Rightarrow> matrix" where
  "z_matrix np_mean np_std D_obs D_permuted n =
     mirror_fill
       (\<lambda>i j. np_div (np_sub (D_obs ! i ! j) (np_mean (samples D_permuted i j)))
                (np_std (samples D_permuted i j)))
       n (np_zeros (n, n))"

text \<open>
  \<^verbatim>\<open>
  if diff_real[i, j] > 0:
      p = ((D_permuted[:, i, j].flatten() > diff_real[i, j]).astype(np.int_).sum() + 1) / (n_permutations + 1)
  else:
      p = ((D_permuted[:, i, j].flatten() < diff_real[i, j]).astype(np.int_).sum() + 1) / (n_permutations + 1)
  \<close>
\<close>

definition count_true :: "('a \<Rightarrow> bool) \<Rightarrow> 'a list \<Rightarrow> nat" where
  "count_true cond xs = length (filter cond xs)"

definition p_value :: "matrix \<Rightarrow> matrix list \<Rightarrow> nat \<Rightarrow> nat \<Rightarrow> nat \<Rightarrow> npfloat" where
  "p_value diff_real D_permuted n_permutations i j =
     (if np_gt (diff_real ! i ! j) (Fin 0)
      then Fin (real (count_true (\<lambda>x. np_gt x (diff_real ! i ! j)) (samples D_permuted i j) + 1)
                / real (n_permutations + 1))
      else Fin (real (count_true (\<lambda>x. np_lt x (diff_real ! i ! j)) (samples D_permuted i j) + 1)
                / real (n_permutations + 1)))"

definition p_matrix :: "matrix \<Rightarrow> matrix list \<Rightarrow> nat \<Rightarrow> nat \<Rightarrow> matrix" where
  "p_matrix diff_real D_permuted n_permutations n =
     mirror_fill (p_value diff_real D_permuted n_permutations) n (np_zeros (n, n))"

text \<open>
  \<^verbatim>\<open>SCN\<close> from the point where the two tables have been read, up to the two
  matrices \<^verbatim>\<open>z_matrix\<close> and \<^verbatim>\<open>p_matrix\<close>. The random permutations drawn by
  \<^verbatim>\<open>np.random.permutation\<close> are the list \<open>randlabels\<close>, one per iteration, so that
  \<^verbatim>\<open>n_permutations\<close> is its length; \<^verbatim>\<open>np.arctanh\<close>, \<^verbatim>\<open>np.mean\<close> and \<^verbatim>\<open>np.std\<close> are
  parameters.
  \<^verbatim>\<open>
  diff_real = PCCn_p - PCCn
  n = diff_real.shape[0]
  g1g2 = pd.concat([ctrl[2], pati[3]])
  for i in trange(n_permutations, ncols=100):
      randlabel = list(np.random.permutation(g1g2.shape[0]))
      g1_per = g1g2.iloc[randlabel[:ctrl[2].shape[0]], :]
      g2_per = g1g2.iloc[randlabel[ctrl[2].shape[0]:], :]
      PCCn_per = PCC(covas=ctrl[0], regions=ctrl[1], group=g1_per)
      PCCn_p_per = PCC(covas=ctrl[0], regions=ctrl[1], group=g2_per)
      D_permuted[i] = PCCn_p_per - PCCn_per
  D_obs = np.abs(np.arctanh(PCCn) - np.arctanh(PCCn_p))
  \<close>
\<close>

definition iloc_rows :: "dataframe \<Rightarrow> nat list \<Rightarrow> dataframe" where
  "iloc_rows t ks = t\<lparr>rows := map (\<lambda>k. rows t ! k) ks\<rparr>"

definition permuted_difference ::
  "estimator \<Rightarrow> string list \<Rightarrow> string list \<Rightarrow> dataframe \<Rightarrow> nat \<Rightarrow> nat list \<Rightarrow> matrix" where
  "permuted_difference partial_corr covas regions g1g2 n_ctrl randlabel =
     (let g1_per = iloc_rows g1g2 (take n_ctrl randlabel);
          g2_per = iloc_rows g1g2 (drop n_ctrl randlabel);
          PCCn_per = PCC partial_corr covas regions g1_per;
          PCCn_p_per = PCC partial_corr covas regions g2_per
      in elementwise np_sub PCCn_p_per PCCn_per)"

definition SCN_diff_real ::
  "estimator \<Rightarrow> string list \<Rightarrow> string list \<Rightarrow> dataframe \<Rightarrow> dataframe \<Rightarrow> matrix" where
  "SCN_diff_real partial_corr covas regions ctrl pati =
     (let PCCn = PCC partial_corr covas regions ctrl;
          PCCn_p = PCC partial_corr covas regions pati
      in elementwise np_sub PCCn_p PCCn)"

definition SCN_D_permuted ::
  "estimator \<Rightarrow> string list \<Rightarrow> string list \<Rightarrow> dataframe \<Rightarrow> dataframe \<Rightarrow> nat list list \<Rightarrow>
   matrix list" where
  "SCN_D_permuted partial_corr covas regions ctrl pati randlabels =
     (let g1g2 = ctrl\<lparr>rows := rows ctrl @ rows pati\<rparr>
      in map (permuted_difference partial_corr covas regions g1g2 (length (rows ctrl))) randlabels)"

definition SCN ::
  "estimator \<Rightarrow> (npfloat \<Rightarrow> npfloat) \<Rightarrow> (npfloat list \<Rightarrow> npfloat) \<Rightarrow> (npfloat list \<Rightarrow> npfloat) \<Rightarrow>
   string list \<Rightarrow> string list \<Rightarrow> dataframe \<Rightarrow> dataframe \<Rightarrow> nat list list \<Rightarrow> matrix \<times> matrix" where
  "SCN partial_corr np_arctanh np_mean np_std covas regions ctrl pati randlabels =
     (let PCCn = PCC partial_corr covas regions ctrl;
          PCCn_p = PCC partial_corr covas regions pati;
          diff_real = SCN_diff_real partial_corr covas regions ctrl pati;
          n = fst (shape diff_real);
          n_permutations = length randlabels;
          D_permuted = SCN_D_permuted partial_corr covas regions ctrl pati randlabels;
          D_obs = map_matrix np_abs
                    (elementwise np_sub (map_matrix np_arctanh PCCn) (map_matrix np_arctanh PCCn_p))
      in (z_matrix np_mean np_std D_obs D_permuted n,
          p_matrix diff_real D_permuted n_permutations n))"

section \<open>Properties\<close>

subsection \<open>Arrays\<close>

lemma square_length: "square n M \<Longrightarrow> length M = n"
  by (simp add: square_def)

lemma square_row: "square n M \<Longrightarrow> i < n \<Longrightarrow> length (M ! i) = n"
  by (simp add: square_def list_all_length)

lemma shape_square: "square n M \<Longrightarrow> shape M = (n, n)"
  by (cases M) (auto simp: shape_def square_def)

lemma square_full: "square n (full n n v)"
  by (simp add: square_def full_def list_all_length)

lemma full_nth: "i < r \<Longrightarrow> j < c \<Longrightarrow> full r c v ! i ! j = v"
  by (simp add: full_def)

lemma square_elementwise:
  "square n A \<Longrightarrow> square n B \<Longrightarrow> square n (elementwise f A B)"
  by (simp add: square_def elementwise_def list_all_length)

lemma elementwise_nth:
  "square n A \<Longrightarrow> square n B \<Longrightarrow> i < n \<Longrightarrow> j < n \<Longrightarrow>
   elementwise f A B ! i ! j = f (A ! i ! j) (B ! i ! j)"
  by (simp add: square_def elementwise_def list_all_length)

lemma square_map_matrix: "square n A \<Longrightarrow> square n (map_matrix f A)"
  by (simp add: square_def map_matrix_def list_all_length)

lemma map_matrix_nth:
  "square n A \<Longrightarrow> i < n \<Longrightarrow> j < n \<Longrightarrow> map_matrix f A ! i ! j = f (A ! i ! j)"
  by (simp add: square_def map_matrix_def list_all_length)

lemma set_diagonal_closed:
  "square (length M) M \<Longrightarrow> set ks \<subseteq> {..<length M} \<Longrightarrow>
   set_diagonal M v ks =
     Inr (map (\<lambda>k. if k \<in> set ks then (M ! k)[k := v] else M ! k) [0..<length M])"
proof (induction ks arbitrary: M)
  case Nil
  then show ?case by (simp add: map_nth)
next
  case (Cons i rest)
  let ?M' = "M[i := (M ! i)[i := v]]"
  from Cons.prems have i: "i < length M" and rest: "set rest \<subseteq> {..<length ?M'}"
    by auto
  from Cons.prems(1) i have row: "i < length (M ! i)"
    by (simp add: square_def list_all_length)
  have sq: "square (length ?M') ?M'"
    unfolding square_def list_all_length
  proof (intro conjI allI impI)
    fix k assume "k < length ?M'"
    then show "length (?M' ! k) = length ?M'"
      using Cons.prems(1) by (cases "k = i") (simp_all add: square_def list_all_length)
  qed simp
  have "set_diagonal M v (i # rest) = set_diagonal ?M' v rest"
    using i row by simp
  also have "\<dots> = Inr (map (\<lambda>k. if k \<in> set rest then (?M' ! k)[k := v] else ?M' ! k)
                        [0..<length ?M'])"
    by (rule Cons.IH [OF sq rest])
  also have "\<dots> = Inr (map (\<lambda>k. if k \<in> set (i # rest) then (M ! k)[k := v] else M ! k)
                        [0..<length M])"
    using i by (auto simp: nth_list_update)
  finally show ?case .
qed

lemma set_diagonal_range:
  assumes "square n M"
  shows "set_diagonal M v [0..<n] = Inr (map (\<lambda>k. (M ! k)[k := v]) [0..<n])"
proof -
  from assms have n: "length M = n" by (simp add: square_def)
  have sub: "set [0..<n] \<subseteq> {..<length M}" using n by auto
  from assms n have sq: "square (length M) M" by simp
  have "set_diagonal M v [0..<n] =
     Inr (map (\<lambda>k. if k \<in> set [0..<n] then (M ! k)[k := v] else M ! k) [0..<length M])"
    by (rule set_diagonal_closed [OF sq sub])
  also have "\<dots> = Inr (map (\<lambda>k. (M ! k)[k := v]) [0..<n])"
    using n by simp
  finally show ?thesis .
qed


lemma square_diag_map:
  "square n M \<Longrightarrow> square n (map (\<lambda>k. (M ! k)[k := v]) [0..<n])"
  by (simp add: square_def list_all_length)

lemma diag_map_nth:
  "square n M \<Longrightarrow> i < n \<Longrightarrow> j < n \<Longrightarrow>
   map (\<lambda>k. (M ! k)[k := v]) [0..<n] ! i ! j = (if i = j then v else M ! i ! j)"
  by (simp add: square_def list_all_length)

subsection \<open>\<^verbatim>\<open>Z_score\<close>\<close>

lemma square_denominator0: "square n PCCn \<Longrightarrow> square n (denominator0 n PCCn)"
  by (simp add: denominator0_def np_ones_def square_elementwise square_full)

lemma denominator0_nth:
  "square n PCCn \<Longrightarrow> i < n \<Longrightarrow> j < n \<Longrightarrow>
   denominator0 n PCCn ! i ! j = np_sub (Fin 1) (np_mul (PCCn ! i ! j) (PCCn ! i ! j))"
  by (simp add: denominator0_def np_ones_def elementwise_nth [where n = n] square_elementwise
      square_full full_nth)

lemma Z_score_denominator_square:
  assumes "square n PCCn"
  shows "Z_score_denominator PCCn =
           Inr (map (\<lambda>k. (denominator0 n PCCn ! k)[k := Fin 1]) [0..<n])"
  using assms
  by (simp add: Z_score_denominator_def shape_square set_diagonal_range
      square_denominator0 denominator0_def [symmetric])

lemma Z_score_square:
  assumes "square n PCCn" and "square n delta_PCC"
  shows "Z_score PCCn delta_PCC =
           Inr (map (\<lambda>k. (Z_score_quotient PCCn delta_PCC
                            (map (\<lambda>k. (denominator0 n PCCn ! k)[k := Fin 1]) [0..<n]) ! k)
                          [k := Fin 1]) [0..<n])"
proof -
  let ?d = "map (\<lambda>k. (denominator0 n PCCn ! k)[k := Fin 1]) [0..<n]"
  have d: "square n ?d"
    by (rule square_diag_map [OF square_denominator0 [OF assms(1)]])
  have q: "square n (Z_score_quotient PCCn delta_PCC ?d)"
    unfolding Z_score_quotient_def Let_def
    by (intro square_elementwise square_map_matrix assms(2) d)
  show ?thesis
    using assms
    by (simp add: Z_score_def shape_square Z_score_denominator_square
        set_diagonal_range [OF q])
qed

lemma Z_score_quotient_nth:
  assumes "square n PCCn" and "square n delta_PCC" and "square n d" and "i < n" and "j < n"
  shows "Z_score_quotient PCCn delta_PCC d ! i ! j =
           np_div (np_mul (Fin (real_of_int (int n - 1))) (delta_PCC ! i ! j)) (d ! i ! j)"
  using assms
  by (simp add: Z_score_quotient_def shape_square elementwise_nth [where n = n]
      square_map_matrix map_matrix_nth [where n = n])



lemma Z_score_entries:
  assumes "square n PCCn" and "square n delta_PCC"
  shows "\<exists>Z. Z_score PCCn delta_PCC = Inr Z \<and> square n Z \<and>
           (\<forall>i<n. \<forall>j<n. Z ! i ! j =
              (if i = j then Fin 1
               else np_div (np_mul (Fin (real_of_int (int n - 1))) (delta_PCC ! i ! j))
                      (np_sub (Fin 1) (np_mul (PCCn ! i ! j) (PCCn ! i ! j)))))"
proof -
  let ?d = "map (\<lambda>k. (denominator0 n PCCn ! k)[k := Fin 1]) [0..<n]"
  let ?q = "Z_score_quotient PCCn delta_PCC ?d"
  let ?Z = "map (\<lambda>k. (?q ! k)[k := Fin 1]) [0..<n]"
  have d0: "square n (denominator0 n PCCn)"
    by (rule square_denominator0 [OF assms(1)])
  have d: "square n ?d"
    by (rule square_diag_map [OF d0])
  have q: "square n ?q"
    unfolding Z_score_quotient_def Let_def
    by (intro square_elementwise square_map_matrix assms(2) d)
  have Z: "Z_score PCCn delta_PCC = Inr ?Z"
    by (rule Z_score_square [OF assms])
  have "?Z ! i ! j =
          (if i = j then Fin 1
           else np_div (np_mul (Fin (real_of_int (int n - 1))) (delta_PCC ! i ! j))
                  (np_sub (Fin 1) (np_mul (PCCn ! i ! j) (PCCn ! i ! j))))"
    if "i < n" and "j < n" for i j
  proof (cases "i = j")
    case True
    then show ?thesis using diag_map_nth [OF q that, of "Fin 1"] by simp
  next
    case False
    have "?Z ! i ! j = ?q ! i ! j"
      using diag_map_nth [OF q that, of "Fin 1"] False by simp
    also have "\<dots> = np_div (np_mul (Fin (real_of_int (int n - 1))) (delta_PCC ! i ! j)) (?d ! i ! j)"
      by (rule Z_score_quotient_nth [OF assms d that])
    also have "?d ! i ! j = denominator0 n PCCn ! i ! j"
      using diag_map_nth [OF d0 that, of "Fin 1"] False by simp
    also have "\<dots> = np_sub (Fin 1) (np_mul (PCCn ! i ! j) (PCCn ! i ! j))"
      by (rule denominator0_nth [OF assms(1) that])
    finally show ?thesis using False by simp
  qed
  then show ?thesis
    using Z square_diag_map [OF q, of "Fin 1"] by blast
qed






subsection \<open>\<^verbatim>\<open>getTopLocs\<close>\<close>

text \<open>
  Claim C3, as amended. The rank list of the scenario, written as \<^verbatim>\<open>draw_signifcant\<close>
  builds it (each group with its number of edges), and the target 2: the loop takes
  the first group (one edge), is still below the target, takes the whole second
  group, and returns the three edges \<open>(0,1), (0,2), (1,2)\<close>.
\<close>

theorem getTopLocs_scenario:
  "getTopLocs [(3::int, 1, [(0, 1)]), (2, 2, [(0, 2), (1, 2)]), (0, 1, [(0, 3)])] 2
     = Inr [(0, 1), (0, 2), (1, 2)]"
  by (simp add: getTopLocs_def)

text \<open>Claim C3 as stated fails: the result is not the second group alone.\<close>

theorem getTopLocs_scenario_not_second_group:
  "getTopLocs [(3::int, 1, [(0, 1)]), (2, 2, [(0, 2), (1, 2)]), (0, 1, [(0, 3)])] 2
     \<noteq> Inr [(0, 2), (1, 2)]"
  by (simp add: getTopLocs_def)

subsection \<open>\<^verbatim>\<open>PCC\<close>\<close>

lemma PCC_inner_closed:
  "PCC_inner pc covas g r1 rs (col, calls) =
     (col @ map (\<lambda>r2. if r1 \<noteq> r2 then pc g r1 r2 covas else Fin 1) rs,
      calls @ map (\<lambda>r2. (r1, r2)) (filter (\<lambda>r2. r1 \<noteq> r2) rs))"
  by (induction rs arbitrary: col calls) auto

lemma PCC_outer_closed:
  "PCC_outer pc covas g regions rs (pcorr, calls) =
     (pcorr @ map (\<lambda>r1. map (\<lambda>r2. if r1 \<noteq> r2 then pc g r1 r2 covas else Fin 1) regions) rs,
      calls @ concat (map (\<lambda>r1. map (\<lambda>r2. (r1, r2)) (filter (\<lambda>r2. r1 \<noteq> r2) regions)) rs))"
  by (induction rs arbitrary: pcorr calls) (auto simp: PCC_inner_closed)

lemma PCC_closed:
  "PCC pc covas regions g =
     map (\<lambda>r1. map (\<lambda>r2. if r1 \<noteq> r2 then pc g r1 r2 covas else Fin 1) regions) regions"
  by (simp add: PCC_def PCC_logged_def PCC_outer_closed)

lemma partial_corr_calls_closed:
  "partial_corr_calls pc covas regions g =
     concat (map (\<lambda>r1. map (\<lambda>r2. (r1, r2)) (filter (\<lambda>r2. r1 \<noteq> r2) regions)) regions)"
  by (simp add: partial_corr_calls_def PCC_logged_def PCC_outer_closed)

lemma square_PCC: "square (length regions) (PCC pc covas regions g)"
  by (simp add: PCC_closed square_def list_all_length)

lemma set_partial_corr_calls:
  "set (partial_corr_calls pc covas regions g) =
     {(a, b). a \<in> set regions \<and> b \<in> set regions \<and> a \<noteq> b}"
  by (auto simp: partial_corr_calls_closed)

text \<open>
  Claim C5, as amended. Every diagonal entry of the matrix is 1. Entry \<open>(i, j)\<close> for two
  different region names is the estimate for \<open>x\<close> the region \<open>i\<close> and \<open>y\<close> the region \<open>j\<close>;
  the estimator is called for both orders of such a pair, and the two entries are
  equal when the estimator returns the same value for both orders.
\<close>

theorem PCC_entries:
  assumes "i < length regions" and "j < length regions"
  shows "PCC pc covas regions g ! i ! i = Fin 1 \<and>
         PCC pc covas regions g ! i ! j =
           (if regions ! i \<noteq> regions ! j then pc g (regions ! i) (regions ! j) covas else Fin 1) \<and>
         (regions ! i \<noteq> regions ! j \<longrightarrow>
            (regions ! i, regions ! j) \<in> set (partial_corr_calls pc covas regions g) \<and>
            (regions ! j, regions ! i) \<in> set (partial_corr_calls pc covas regions g)) \<and>
         (pc g (regions ! i) (regions ! j) covas = pc g (regions ! j) (regions ! i) covas \<longrightarrow>
            PCC pc covas regions g ! i ! j = PCC pc covas regions g ! j ! i)"
  using assms by (auto simp: PCC_closed set_partial_corr_calls)

theorem PCC_entries_witness:
  "PCC (\<lambda>g x y c. Fin (1/2)) [''age''] [''r1'', ''r2'']
       \<lparr>columns = [''age'', ''r1'', ''r2''], rows = []\<rparr> ! 0 ! 0 = Fin 1 \<and>
   PCC (\<lambda>g x y c. Fin (1/2)) [''age''] [''r1'', ''r2'']
       \<lparr>columns = [''age'', ''r1'', ''r2''], rows = []\<rparr> ! 0 ! 1 = Fin (1/2) \<and>
   PCC (\<lambda>g x y c. Fin (1/2)) [''age''] [''r1'', ''r2'']
       \<lparr>columns = [''age'', ''r1'', ''r2''], rows = []\<rparr> ! 0 ! 1 =
   PCC (\<lambda>g x y c. Fin (1/2)) [''age''] [''r1'', ''r2'']
       \<lparr>columns = [''age'', ''r1'', ''r2''], rows = []\<rparr> ! 1 ! 0"
  using PCC_entries [of 0 "[''r1'', ''r2'']" 1 "\<lambda>g x y c. Fin (1/2)" "[''age'']"
      "\<lparr>columns = [''age'', ''r1'', ''r2''], rows = []\<rparr>"]
  by (simp add: PCC_closed)

text \<open>
  Claim C5 as stated fails: for two regions the estimator is called twice, once per
  order of the pair, and the two entries are the two results, which differ when
  the estimator's results do.
\<close>

theorem PCC_estimates_each_pair_twice:
  "partial_corr_calls (\<lambda>g x y c. if x = ''r1'' then Fin (1/2) else Fin (1/4)) [''age'']
       [''r1'', ''r2''] \<lparr>columns = [''age'', ''r1'', ''r2''], rows = []\<rparr>
     = [(''r1'', ''r2''), (''r2'', ''r1'')] \<and>
   PCC (\<lambda>g x y c. if x = ''r1'' then Fin (1/2) else Fin (1/4)) [''age'']
       [''r1'', ''r2''] \<lparr>columns = [''age'', ''r1'', ''r2''], rows = []\<rparr>
     = [[Fin 1, Fin (1/2)], [Fin (1/4), Fin 1]]"
  by (simp add: partial_corr_calls_def PCC_def PCC_logged_def)

subsection \<open>The factor of \<^verbatim>\<open>Z_score\<close> within \<^verbatim>\<open>IDSCN\<close>\<close>

text \<open>
  Claim C1 at a control table of four subjects and two regions: the factor applied
  to \<open>delta_PCC / (1 - PCCn\<^sup>2)\<close> is the number of regions minus one, \<open>2 - 1\<close>, and not
  the number of control subjects minus one, \<open>4 - 1\<close>.
\<close>

theorem Z_score_factor_is_region_count:
  "(let ctrl = \<lparr>columns = [''age'', ''r1'', ''r2''],
                rows = [[Fin 30, Fin 1, Fin 2], [Fin 40, Fin 2, Fin 3],
                        [Fin 50, Fin 3, Fin 5], [Fin 60, Fin 4, Fin 4]]\<rparr>;
        pc = (\<lambda>g x y c. if length (rows g) = 4 then Fin (1/2) else Fin (4/5));
        PCCn = PCC pc [''age''] [''r1'', ''r2''] ctrl
    in length (rows ctrl) = 4 \<and>
       (case IDSCN_subject pc sf [''age''] [''r1'', ''r2''] ctrl PCCn [Fin 35, Fin 9, Fin 1] of
          Inl e \<Rightarrow> False
        | Inr (PCCn_1, Z, ori_P, correct_P) \<Rightarrow>
            PCCn ! 0 ! 1 = Fin (1/2) \<and> PCCn_1 ! 0 ! 1 = Fin (4/5) \<and>
            Z ! 0 ! 1 = Fin ((2 - 1) * (4/5 - 1/2) / (1 - (1/2) * (1/2))) \<and>
            Z ! 0 ! 1 \<noteq> Fin ((4 - 1) * (4/5 - 1/2) / (1 - (1/2) * (1/2)))))"
  by (simp add: IDSCN_subject_def bind_def mix_group_def PCC_def PCC_logged_def
      Z_score_def Z_score_denominator_def Z_score_quotient_def shape_def np_ones_def
      full_def elementwise_def map_matrix_def np_sub_def Let_def split: prod.splits)

subsection \<open>The mirrored loops of \<^verbatim>\<open>SCN\<close>\<close>

lemma square_set_entry:
  "square n M \<Longrightarrow> i < n \<Longrightarrow> square n (set_entry M i j v)"
  by (auto simp: square_def set_entry_def list_all_length nth_list_update)

lemma set_entry_nth:
  "square n M \<Longrightarrow> i < n \<Longrightarrow> j < n \<Longrightarrow> a < n \<Longrightarrow> b < n \<Longrightarrow>
   set_entry M i j v ! a ! b = (if a = i \<and> b = j then v else M ! a ! b)"
  by (auto simp: square_def set_entry_def list_all_length nth_list_update)

lemma mirror_row:
  assumes "square n A" and "i < n"
  shows "l \<le> n \<Longrightarrow>
         square n (fold (\<lambda>j B. set_entry (set_entry B i j (f i j)) j i (f i j)) [i + 1..<l] A) \<and>
         (\<forall>a<n. \<forall>b<n.
            fold (\<lambda>j B. set_entry (set_entry B i j (f i j)) j i (f i j)) [i + 1..<l] A ! a ! b =
              (if a = i \<and> i < b \<and> b < l then f i b
               else if b = i \<and> i < a \<and> a < l then f i a
               else A ! a ! b))"
proof (induction l)
  case 0
  then show ?case using assms by simp
next
  case (Suc l)
  let ?step = "\<lambda>j B. set_entry (set_entry B i j (f i j)) j i (f i j)"
  show ?case
  proof (cases "i + 1 \<le> l")
    case False
    then have "[i + 1..<Suc l] = []" by simp
    then show ?thesis using assms False by auto
  next
    case True
    let ?B = "fold ?step [i + 1..<l] A"
    from Suc have IH: "square n ?B"
      and IHv: "\<forall>a<n. \<forall>b<n. ?B ! a ! b =
              (if a = i \<and> i < b \<and> b < l then f i b
               else if b = i \<and> i < a \<and> a < l then f i a
               else A ! a ! b)"
      by auto
    from Suc.prems have l: "l < n" by simp
    have eq: "fold ?step [i + 1..<Suc l] A = ?step l ?B"
      using True by simp
    have sq1: "square n (set_entry ?B i l (f i l))"
      by (rule square_set_entry [OF IH assms(2)])
    have sq2: "square n (?step l ?B)"
      by (rule square_set_entry [OF sq1 l])
    have "?step l ?B ! a ! b =
              (if a = i \<and> i < b \<and> b < Suc l then f i b
               else if b = i \<and> i < a \<and> a < Suc l then f i a
               else A ! a ! b)" if "a < n" and "b < n" for a b
    proof -
      have "?step l ?B ! a ! b =
              (if a = l \<and> b = i then f i l else set_entry ?B i l (f i l) ! a ! b)"
        by (rule set_entry_nth [OF sq1 l assms(2) that])
      also have "set_entry ?B i l (f i l) ! a ! b = (if a = i \<and> b = l then f i l else ?B ! a ! b)"
        by (rule set_entry_nth [OF IH assms(2) l that])
      finally show ?thesis
        using IHv that True by (auto simp: less_Suc_eq)
    qed
    then show ?thesis using sq2 eq by simp
  qed
qed

lemma mirror_rows:
  assumes "square n M"
  shows "k \<le> n \<Longrightarrow>
         square n (fold (\<lambda>i A. fold (\<lambda>j B. set_entry (set_entry B i j (f i j)) j i (f i j))
                                 [i + 1..<n] A) [0..<k] M) \<and>
         (\<forall>a<n. \<forall>b<n.
            fold (\<lambda>i A. fold (\<lambda>j B. set_entry (set_entry B i j (f i j)) j i (f i j))
                           [i + 1..<n] A) [0..<k] M ! a ! b =
              (if a < b \<and> a < k then f a b
               else if b < a \<and> b < k then f b a
               else M ! a ! b))"
proof (induction k)
  case 0
  then show ?case using assms by simp
next
  case (Suc k)
  let ?row = "\<lambda>i A. fold (\<lambda>j B. set_entry (set_entry B i j (f i j)) j i (f i j)) [i + 1..<n] A"
  let ?A = "fold ?row [0..<k] M"
  from Suc have IH: "square n ?A"
    and IHv: "\<forall>a<n. \<forall>b<n. ?A ! a ! b =
              (if a < b \<and> a < k then f a b
               else if b < a \<and> b < k then f b a
               else M ! a ! b)"
    by auto
  from Suc.prems have k: "k < n" by simp
  have eq: "fold ?row [0..<Suc k] M = ?row k ?A" by simp
  have row: "square n (?row k ?A) \<and>
         (\<forall>a<n. \<forall>b<n. ?row k ?A ! a ! b =
              (if a = k \<and> k < b \<and> b < n then f k b
               else if b = k \<and> k < a \<and> a < n then f k a
               else ?A ! a ! b))"
    by (rule mirror_row [OF IH k]) simp
  have "?row k ?A ! a ! b =
              (if a < b \<and> a < Suc k then f a b
               else if b < a \<and> b < Suc k then f b a
               else M ! a ! b)" if "a < n" and "b < n" for a b
  proof -
    have "?row k ?A ! a ! b =
              (if a = k \<and> k < b \<and> b < n then f k b
               else if b = k \<and> k < a \<and> a < n then f k a
               else ?A ! a ! b)"
      using row that by blast
    then show ?thesis using IHv that by (auto simp: less_Suc_eq)
  qed
  then show ?case using row eq by simp
qed

lemma mirror_fill_entries:
  assumes "square n M"
  shows "square n (mirror_fill f n M)"
    and "a < n \<Longrightarrow> b < n \<Longrightarrow>
         mirror_fill f n M ! a ! b =
           (if a < b then f a b else if b < a then f b a else M ! a ! b)"
proof -
  have *: "square n (mirror_fill f n M) \<and>
         (\<forall>a<n. \<forall>b<n. mirror_fill f n M ! a ! b =
              (if a < b \<and> a < n then f a b
               else if b < a \<and> b < n then f b a
               else M ! a ! b))"
    unfolding mirror_fill_def by (rule mirror_rows [OF assms]) simp
  then show "square n (mirror_fill f n M)" by simp
  show "mirror_fill f n M ! a ! b =
           (if a < b then f a b else if b < a then f b a else M ! a ! b)"
    if "a < n" and "b < n"
    using * that by simp
qed

lemma square_np_zeros: "square n (np_zeros (n, n))"
  by (simp add: np_zeros_def square_full)

lemma np_zeros_nth: "i < n \<Longrightarrow> j < n \<Longrightarrow> np_zeros (n, n) ! i ! j = Fin 0"
  by (simp add: np_zeros_def full_nth)

lemma square_SCN_diff_real:
  "square (length regions) (SCN_diff_real pc covas regions ctrl pati)"
  by (simp add: SCN_diff_real_def square_elementwise square_PCC)

lemma shape_SCN_diff_real:
  "fst (shape (SCN_diff_real pc covas regions ctrl pati)) = length regions"
  by (simp add: shape_square [OF square_SCN_diff_real])

lemma IDSCN_subject_Z_diagonal:
  assumes "length p = length covas + length regions" and "i < length regions"
  shows "\<exists>PCCn_1 Z ori_P correct_P.
           IDSCN_subject pc sf covas regions ctrl (PCC pc covas regions ctrl) p =
             Inr (PCCn_1, Z, ori_P, correct_P) \<and> Z ! i ! i = Fin 1"
proof -
  let ?n = "length regions"
  let ?mixed = "ctrl\<lparr>rows := rows ctrl @ [p]\<rparr>"
  let ?delta = "elementwise np_sub (PCC pc covas regions ?mixed) (PCC pc covas regions ctrl)"
  have mix: "mix_group (covas @ regions) ctrl p = Inr ?mixed"
    using assms(1) by (simp add: mix_group_def)
  have sq: "square ?n (PCC pc covas regions ctrl)" by (rule square_PCC)
  have sqd: "square ?n ?delta"
    by (intro square_elementwise square_PCC)
  obtain Z where Z: "Z_score (PCC pc covas regions ctrl) ?delta = Inr Z"
    and Zd: "\<forall>i<?n. \<forall>j<?n. Z ! i ! j =
              (if i = j then Fin 1
               else np_div (np_mul (Fin (real_of_int (int ?n - 1))) (?delta ! i ! j))
                      (np_sub (Fin 1) (np_mul (PCC pc covas regions ctrl ! i ! j)
                                              (PCC pc covas regions ctrl ! i ! j))))"
    using Z_score_entries [OF sq sqd] by blast
  have "IDSCN_subject pc sf covas regions ctrl (PCC pc covas regions ctrl) p =
          Inr (PCC pc covas regions ?mixed, Z, fst (P sf Z), snd (P sf Z))"
    by (simp add: IDSCN_subject_def bind_def mix Z Let_def split: prod.splits)
  moreover have "Z ! i ! i = Fin 1" using Zd assms(2) by simp
  ultimately show ?thesis by blast
qed

text \<open>
  Claim C8. Every diagonal entry of the Z matrix of \<^verbatim>\<open>SCN\<close> is 0: the loop writes only
  the positions \<open>(i, j)\<close> and \<open>(j, i)\<close> with \<open>i < j\<close>, with one value for both. The Z matrix
  of a subject in \<^verbatim>\<open>IDSCN\<close> has 1 on its diagonal.
\<close>

theorem SCN_z_matrix_diagonal:
  assumes "i < length regions" and "length p = length covas + length regions"
  shows "fst (SCN pc np_arctanh np_mean np_std covas regions ctrl pati randlabels) ! i ! i = Fin 0 \<and>
         (\<forall>j<length regions.
            fst (SCN pc np_arctanh np_mean np_std covas regions ctrl pati randlabels) ! i ! j =
            fst (SCN pc np_arctanh np_mean np_std covas regions ctrl pati randlabels) ! j ! i) \<and>
         (\<exists>PCCn_1 Z ori_P correct_P.
            IDSCN_subject pc sf covas regions ctrl (PCC pc covas regions ctrl) p =
              Inr (PCCn_1, Z, ori_P, correct_P) \<and> Z ! i ! i = Fin 1)"
proof -
  let ?n = "length regions"
  let ?z = "fst (SCN pc np_arctanh np_mean np_std covas regions ctrl pati randlabels)"
  obtain f where z: "?z = mirror_fill f ?n (np_zeros (?n, ?n))"
    by (simp add: SCN_def z_matrix_def Let_def shape_SCN_diff_real)
  have e: "?z ! a ! b = (if a < b then f a b else if b < a then f b a else np_zeros (?n, ?n) ! a ! b)"
    if "a < ?n" and "b < ?n" for a b
    unfolding z by (rule mirror_fill_entries(2) [OF square_np_zeros that])
  have "?z ! i ! i = Fin 0"
    using e [OF assms(1) assms(1)] assms(1) by (simp add: np_zeros_nth)
  moreover have "?z ! i ! j = ?z ! j ! i" if "j < ?n" for j
    using e [OF assms(1) that] e [OF that assms(1)] by auto
  ultimately show ?thesis
    using IDSCN_subject_Z_diagonal [OF assms(2) assms(1)] by blast
qed

theorem SCN_z_matrix_diagonal_witness:
  "(0::nat) < length [''r1'', ''r2''] \<and>
   length [Fin 35, Fin 9, Fin 1] = length [''age''] + length [''r1'', ''r2''] \<and>
   fst (SCN (\<lambda>g x y c. Fin (1/2)) (\<lambda>x. x) (\<lambda>xs. Fin 0) (\<lambda>xs. Fin 1) [''age''] [''r1'', ''r2'']
          \<lparr>columns = [''age'', ''r1'', ''r2''], rows = [[Fin 30, Fin 1, Fin 2]]\<rparr>
          \<lparr>columns = [''age'', ''r1'', ''r2''], rows = [[Fin 40, Fin 2, Fin 3]]\<rparr>
          [[0, 1], [1, 0]]) ! 0 ! 0 = Fin 0"
  using SCN_z_matrix_diagonal [of 0 "[''r1'', ''r2'']" "[Fin 35, Fin 9, Fin 1]" "[''age'']"
      "\<lambda>g x y c. Fin (1/2)" "\<lambda>x. x" "\<lambda>xs. Fin 0" "\<lambda>xs. Fin 1"
      "\<lparr>columns = [''age'', ''r1'', ''r2''], rows = [[Fin 30, Fin 1, Fin 2]]\<rparr>"
      "\<lparr>columns = [''age'', ''r1'', ''r2''], rows = [[Fin 40, Fin 2, Fin 3]]\<rparr>"
      "[[0, 1], [1, 0]]"]
  by simp

lemma SCN_diff_real_nth:
  assumes "i < length regions" and "j < length regions"
  shows "SCN_diff_real pc covas regions ctrl pati ! i ! j =
           np_sub (PCC pc covas regions pati ! i ! j) (PCC pc covas regions ctrl ! i ! j)"
  unfolding SCN_diff_real_def Let_def
  by (rule elementwise_nth [OF square_PCC square_PCC assms])

lemma count_true_card:
  "count_true cond (samples D i j) = card {k. k < length D \<and> cond (D ! k ! i ! j)}"
proof -
  have "count_true cond (samples D i j) =
          card {k. k < length (samples D i j) \<and> cond (samples D i j ! k)}"
    unfolding count_true_def by (rule length_filter_conv_card)
  also have "{k. k < length (samples D i j) \<and> cond (samples D i j ! k)} =
             {k. k < length D \<and> cond (D ! k ! i ! j)}"
    by (auto simp: samples_def)
  finally show ?thesis .
qed

lemma length_SCN_D_permuted:
  "length (SCN_D_permuted pc covas regions ctrl pati randlabels) = length randlabels"
  by (simp add: SCN_D_permuted_def)

text \<open>
  Claim C4. For an edge \<open>(i, j)\<close> with \<open>i < j\<close> the p-value of \<^verbatim>\<open>SCN\<close> is the number of
  permutations whose null sample at the edge lies beyond the real difference
  \<open>PCCn_p[i][j] - PCCn[i][j]\<close>, plus one, over the number of permutations plus one;
  beyond means greater when the real difference is positive and less otherwise.
  There is one null sample per permutation, the value is mirrored to \<open>(j, i)\<close>, it is
  at least \<open>1 / (n_permutations + 1)\<close> and above zero.
\<close>

theorem SCN_p_value:
  assumes "i < j" and "j < length regions"
  shows "snd (SCN pc np_arctanh np_mean np_std covas regions ctrl pati randlabels) ! i ! j =
           Fin (real (card {k. k < length randlabels \<and>
                  (if np_gt (np_sub (PCC pc covas regions pati ! i ! j)
                                    (PCC pc covas regions ctrl ! i ! j)) (Fin 0)
                   then np_gt (SCN_D_permuted pc covas regions ctrl pati randlabels ! k ! i ! j)
                              (np_sub (PCC pc covas regions pati ! i ! j)
                                      (PCC pc covas regions ctrl ! i ! j))
                   else np_lt (SCN_D_permuted pc covas regions ctrl pati randlabels ! k ! i ! j)
                              (np_sub (PCC pc covas regions pati ! i ! j)
                                      (PCC pc covas regions ctrl ! i ! j)))} + 1)
                / real (length randlabels + 1)) \<and>
         snd (SCN pc np_arctanh np_mean np_std covas regions ctrl pati randlabels) ! j ! i =
           snd (SCN pc np_arctanh np_mean np_std covas regions ctrl pati randlabels) ! i ! j \<and>
         np_ge (snd (SCN pc np_arctanh np_mean np_std covas regions ctrl pati randlabels) ! i ! j)
               (Fin (1 / real (length randlabels + 1))) \<and>
         np_gt (snd (SCN pc np_arctanh np_mean np_std covas regions ctrl pati randlabels) ! i ! j)
               (Fin 0) \<and>
         length (SCN_D_permuted pc covas regions ctrl pati randlabels) = length randlabels"
proof -
  let ?n = "length regions"
  let ?d = "SCN_diff_real pc covas regions ctrl pati"
  let ?r = "np_sub (PCC pc covas regions pati ! i ! j) (PCC pc covas regions ctrl ! i ! j)"
  let ?D = "SCN_D_permuted pc covas regions ctrl pati randlabels"
  let ?N = "length randlabels"
  let ?p = "snd (SCN pc np_arctanh np_mean np_std covas regions ctrl pati randlabels)"
  let ?k = "card {k. k < ?N \<and>
              (if np_gt ?r (Fin 0) then np_gt (?D ! k ! i ! j) ?r else np_lt (?D ! k ! i ! j) ?r)}"
  have p: "?p = mirror_fill (p_value ?d ?D ?N) ?n (np_zeros (?n, ?n))"
    by (simp add: SCN_def p_matrix_def Let_def shape_SCN_diff_real)
  from assms have i: "i < ?n" by simp
  have e: "?p ! a ! b = (if a < b then p_value ?d ?D ?N a b
                         else if b < a then p_value ?d ?D ?N b a
                         else np_zeros (?n, ?n) ! a ! b)"
    if "a < ?n" and "b < ?n" for a b
    unfolding p by (rule mirror_fill_entries(2) [OF square_np_zeros that])
  have ij: "?p ! i ! j = p_value ?d ?D ?N i j"
    using e [OF i assms(2)] assms(1) by simp
  have ji: "?p ! j ! i = p_value ?d ?D ?N i j"
    using e [OF assms(2) i] assms(1) by simp
  have d: "?d ! i ! j = ?r"
    by (rule SCN_diff_real_nth [OF i assms(2)])
  have len: "length ?D = ?N" by (rule length_SCN_D_permuted)
  have v: "p_value ?d ?D ?N i j = Fin (real (?k + 1) / real (?N + 1))"
  proof (cases "np_gt ?r (Fin 0)")
    case True
    then show ?thesis
      unfolding p_value_def d count_true_card len by simp
  next
    case False
    then show ?thesis
      unfolding p_value_def d count_true_card len by simp
  qed
  have "1 / real (?N + 1) \<le> real (?k + 1) / real (?N + 1)"
    by (intro divide_right_mono) simp_all
  then have ge: "np_ge (Fin (real (?k + 1) / real (?N + 1))) (Fin (1 / real (?N + 1)))"
    by (simp add: np_ge_def not_less)
  have "0 < real (?k + 1) / real (?N + 1)"
    by (intro divide_pos_pos) simp_all
  then have gt: "np_gt (Fin (real (?k + 1) / real (?N + 1))) (Fin 0)"
    by (simp add: np_gt_def)
  show ?thesis
    unfolding ij ji v using ge gt len by simp
qed

text \<open>
  Two runs of three permutations over three subjects, with a stand-in estimator that
  reads the table: a positive real difference with one null sample above it, and a
  negative one with one null sample below it.
\<close>

theorem SCN_p_value_witness:
  "(0::nat) < 1 \<and> (1::nat) < length [''r1'', ''r2''] \<and>
   np_sub (PCC (\<lambda>g x y c. case rows g of [] \<Rightarrow> NaN | r # rest \<Rightarrow> r ! 1) [''age''] [''r1'', ''r2'']
      \<lparr>columns = [''age'', ''r1'', ''r2''], rows = [[Fin 40, Fin (1/2), Fin 3]]\<rparr> ! 0 ! 1)
     (PCC (\<lambda>g x y c. case rows g of [] \<Rightarrow> NaN | r # rest \<Rightarrow> r ! 1) [''age''] [''r1'', ''r2'']
      \<lparr>columns = [''age'', ''r1'', ''r2''], rows = [[Fin 30, Fin (3/10), Fin 2], [Fin 31, Fin (1/10), Fin 2]]\<rparr> ! 0 ! 1) = Fin (1/5) \<and>
   snd (SCN (\<lambda>g x y c. case rows g of [] \<Rightarrow> NaN | r # rest \<Rightarrow> r ! 1) (\<lambda>x. x) (\<lambda>xs. Fin 0) (\<lambda>xs. Fin 1) [''age''] [''r1'', ''r2'']
      \<lparr>columns = [''age'', ''r1'', ''r2''], rows = [[Fin 30, Fin (3/10), Fin 2], [Fin 31, Fin (1/10), Fin 2]]\<rparr>
      \<lparr>columns = [''age'', ''r1'', ''r2''], rows = [[Fin 40, Fin (1/2), Fin 3]]\<rparr> [[1, 0, 2], [0, 1, 2], [2, 0, 1]]) ! 0 ! 1 = Fin (1/2) \<and>
   card {k. k < length ([[1, 0, 2], [0, 1, 2], [2, 0, 1]] :: nat list list) \<and>
           np_gt (SCN_D_permuted (\<lambda>g x y c. case rows g of [] \<Rightarrow> NaN | r # rest \<Rightarrow> r ! 1) [''age''] [''r1'', ''r2'']
      \<lparr>columns = [''age'', ''r1'', ''r2''], rows = [[Fin 30, Fin (3/10), Fin 2], [Fin 31, Fin (1/10), Fin 2]]\<rparr>
      \<lparr>columns = [''age'', ''r1'', ''r2''], rows = [[Fin 40, Fin (1/2), Fin 3]]\<rparr> [[1, 0, 2], [0, 1, 2], [2, 0, 1]] ! k ! 0 ! 1) (Fin (1/5))} = 1 \<and>
   np_sub (PCC (\<lambda>g x y c. case rows g of [] \<Rightarrow> NaN | r # rest \<Rightarrow> r ! 1) [''age''] [''r1'', ''r2'']
      \<lparr>columns = [''age'', ''r1'', ''r2''], rows = [[Fin 30, Fin (3/10), Fin 2], [Fin 31, Fin (1/10), Fin 2]]\<rparr> ! 0 ! 1)
     (PCC (\<lambda>g x y c. case rows g of [] \<Rightarrow> NaN | r # rest \<Rightarrow> r ! 1) [''age''] [''r1'', ''r2'']
      \<lparr>columns = [''age'', ''r1'', ''r2''], rows = [[Fin 40, Fin (1/2), Fin 3]]\<rparr> ! 0 ! 1) = Fin (- (1/5)) \<and>
   snd (SCN (\<lambda>g x y c. case rows g of [] \<Rightarrow> NaN | r # rest \<Rightarrow> r ! 1) (\<lambda>x. x) (\<lambda>xs. Fin 0) (\<lambda>xs. Fin 1) [''age''] [''r1'', ''r2'']
      \<lparr>columns = [''age'', ''r1'', ''r2''], rows = [[Fin 40, Fin (1/2), Fin 3]]\<rparr>
      \<lparr>columns = [''age'', ''r1'', ''r2''], rows = [[Fin 30, Fin (3/10), Fin 2], [Fin 31, Fin (1/10), Fin 2]]\<rparr> [[0, 1, 2], [0, 2, 1], [1, 0, 2]]) ! 0 ! 1 = Fin (1/2) \<and>
   card {k. k < length ([[0, 1, 2], [0, 2, 1], [1, 0, 2]] :: nat list list) \<and>
           np_lt (SCN_D_permuted (\<lambda>g x y c. case rows g of [] \<Rightarrow> NaN | r # rest \<Rightarrow> r ! 1) [''age''] [''r1'', ''r2'']
      \<lparr>columns = [''age'', ''r1'', ''r2''], rows = [[Fin 40, Fin (1/2), Fin 3]]\<rparr>
      \<lparr>columns = [''age'', ''r1'', ''r2''], rows = [[Fin 30, Fin (3/10), Fin 2], [Fin 31, Fin (1/10), Fin 2]]\<rparr> [[0, 1, 2], [0, 2, 1], [1, 0, 2]] ! k ! 0 ! 1) (Fin (- (1/5)))} = 1"
proof -
  have d1: "np_sub (PCC (\<lambda>g x y c. case rows g of [] \<Rightarrow> NaN | r # rest \<Rightarrow> r ! 1) [''age''] [''r1'', ''r2'']
      \<lparr>columns = [''age'', ''r1'', ''r2''], rows = [[Fin 40, Fin (1/2), Fin 3]]\<rparr> ! 0 ! 1)
     (PCC (\<lambda>g x y c. case rows g of [] \<Rightarrow> NaN | r # rest \<Rightarrow> r ! 1) [''age''] [''r1'', ''r2'']
      \<lparr>columns = [''age'', ''r1'', ''r2''], rows = [[Fin 30, Fin (3/10), Fin 2], [Fin 31, Fin (1/10), Fin 2]]\<rparr> ! 0 ! 1) = Fin (1/5)"
    by code_simp
  have r1: "snd (SCN (\<lambda>g x y c. case rows g of [] \<Rightarrow> NaN | r # rest \<Rightarrow> r ! 1) (\<lambda>x. x) (\<lambda>xs. Fin 0) (\<lambda>xs. Fin 1) [''age''] [''r1'', ''r2'']
      \<lparr>columns = [''age'', ''r1'', ''r2''], rows = [[Fin 30, Fin (3/10), Fin 2], [Fin 31, Fin (1/10), Fin 2]]\<rparr>
      \<lparr>columns = [''age'', ''r1'', ''r2''], rows = [[Fin 40, Fin (1/2), Fin 3]]\<rparr> [[1, 0, 2], [0, 1, 2], [2, 0, 1]]) ! 0 ! 1 = Fin (1/2)"
    by code_simp
  have d2: "np_sub (PCC (\<lambda>g x y c. case rows g of [] \<Rightarrow> NaN | r # rest \<Rightarrow> r ! 1) [''age''] [''r1'', ''r2'']
      \<lparr>columns = [''age'', ''r1'', ''r2''], rows = [[Fin 30, Fin (3/10), Fin 2], [Fin 31, Fin (1/10), Fin 2]]\<rparr> ! 0 ! 1)
     (PCC (\<lambda>g x y c. case rows g of [] \<Rightarrow> NaN | r # rest \<Rightarrow> r ! 1) [''age''] [''r1'', ''r2'']
      \<lparr>columns = [''age'', ''r1'', ''r2''], rows = [[Fin 40, Fin (1/2), Fin 3]]\<rparr> ! 0 ! 1) = Fin (- (1/5))"
    by code_simp
  have r2: "snd (SCN (\<lambda>g x y c. case rows g of [] \<Rightarrow> NaN | r # rest \<Rightarrow> r ! 1) (\<lambda>x. x) (\<lambda>xs. Fin 0) (\<lambda>xs. Fin 1) [''age''] [''r1'', ''r2'']
      \<lparr>columns = [''age'', ''r1'', ''r2''], rows = [[Fin 40, Fin (1/2), Fin 3]]\<rparr>
      \<lparr>columns = [''age'', ''r1'', ''r2''], rows = [[Fin 30, Fin (3/10), Fin 2], [Fin 31, Fin (1/10), Fin 2]]\<rparr> [[0, 1, 2], [0, 2, 1], [1, 0, 2]]) ! 0 ! 1 = Fin (1/2)"
    by code_simp
  have h1: "(0::nat) < 1" and h2: "(1::nat) < length [''r1'', ''r2'']" by simp_all
  have pos: "np_gt (Fin (1/5)) (Fin 0)" and neg: "\<not> np_gt (Fin (- (1/5))) (Fin 0)"
    by (simp_all add: np_gt_def)
  have "Fin (1/2) = Fin (real (card {k. k < length ([[1, 0, 2], [0, 1, 2], [2, 0, 1]] :: nat list list) \<and>
           np_gt (SCN_D_permuted (\<lambda>g x y c. case rows g of [] \<Rightarrow> NaN | r # rest \<Rightarrow> r ! 1) [''age''] [''r1'', ''r2'']
      \<lparr>columns = [''age'', ''r1'', ''r2''], rows = [[Fin 30, Fin (3/10), Fin 2], [Fin 31, Fin (1/10), Fin 2]]\<rparr>
      \<lparr>columns = [''age'', ''r1'', ''r2''], rows = [[Fin 40, Fin (1/2), Fin 3]]\<rparr> [[1, 0, 2], [0, 1, 2], [2, 0, 1]] ! k ! 0 ! 1) (Fin (1/5))} + 1) / real (length ([[1, 0, 2], [0, 1, 2], [2, 0, 1]] :: nat list list) + 1))"
    using SCN_p_value [OF h1 h2, of "\<lambda>g x y c. case rows g of [] \<Rightarrow> NaN | r # rest \<Rightarrow> r ! 1" "\<lambda>x. x" "\<lambda>xs. Fin 0" "\<lambda>xs. Fin 1" "[''age'']"
        "\<lparr>columns = [''age'', ''r1'', ''r2''], rows = [[Fin 30, Fin (3/10), Fin 2], [Fin 31, Fin (1/10), Fin 2]]\<rparr>"
        "\<lparr>columns = [''age'', ''r1'', ''r2''], rows = [[Fin 40, Fin (1/2), Fin 3]]\<rparr>" "[[1, 0, 2], [0, 1, 2], [2, 0, 1]]"]
    unfolding d1 r1 if_P [OF pos] by blast
  then have c1: "card {k. k < length ([[1, 0, 2], [0, 1, 2], [2, 0, 1]] :: nat list list) \<and>
           np_gt (SCN_D_permuted (\<lambda>g x y c. case rows g of [] \<Rightarrow> NaN | r # rest \<Rightarrow> r ! 1) [''age''] [''r1'', ''r2'']
      \<lparr>columns = [''age'', ''r1'', ''r2''], rows = [[Fin 30, Fin (3/10), Fin 2], [Fin 31, Fin (1/10), Fin 2]]\<rparr>
      \<lparr>columns = [''age'', ''r1'', ''r2''], rows = [[Fin 40, Fin (1/2), Fin 3]]\<rparr> [[1, 0, 2], [0, 1, 2], [2, 0, 1]] ! k ! 0 ! 1) (Fin (1/5))} = 1"
    by simp
  have "Fin (1/2) = Fin (real (card {k. k < length ([[0, 1, 2], [0, 2, 1], [1, 0, 2]] :: nat list list) \<and>
           np_lt (SCN_D_permuted (\<lambda>g x y c. case rows g of [] \<Rightarrow> NaN | r # rest \<Rightarrow> r ! 1) [''age''] [''r1'', ''r2'']
      \<lparr>columns = [''age'', ''r1'', ''r2''], rows = [[Fin 40, Fin (1/2), Fin 3]]\<rparr>
      \<lparr>columns = [''age'', ''r1'', ''r2''], rows = [[Fin 30, Fin (3/10), Fin 2], [Fin 31, Fin (1/10), Fin 2]]\<rparr> [[0, 1, 2], [0, 2, 1], [1, 0, 2]] ! k ! 0 ! 1) (Fin (- (1/5)))} + 1) / real (length ([[0, 1, 2], [0, 2, 1], [1, 0, 2]] :: nat list list) + 1))"
    using SCN_p_value [OF h1 h2, of "\<lambda>g x y c. case rows g of [] \<Rightarrow> NaN | r # rest \<Rightarrow> r ! 1" "\<lambda>x. x" "\<lambda>xs. Fin 0" "\<lambda>xs. Fin 1" "[''age'']"
        "\<lparr>columns = [''age'', ''r1'', ''r2''], rows = [[Fin 40, Fin (1/2), Fin 3]]\<rparr>"
        "\<lparr>columns = [''age'', ''r1'', ''r2''], rows = [[Fin 30, Fin (3/10), Fin 2], [Fin 31, Fin (1/10), Fin 2]]\<rparr>" "[[0, 1, 2], [0, 2, 1], [1, 0, 2]]"]
    unfolding d2 r2 if_not_P [OF neg] by blast
  then have c2: "card {k. k < length ([[0, 1, 2], [0, 2, 1], [1, 0, 2]] :: nat list list) \<and>
           np_lt (SCN_D_permuted (\<lambda>g x y c. case rows g of [] \<Rightarrow> NaN | r # rest \<Rightarrow> r ! 1) [''age''] [''r1'', ''r2'']
      \<lparr>columns = [''age'', ''r1'', ''r2''], rows = [[Fin 40, Fin (1/2), Fin 3]]\<rparr>
      \<lparr>columns = [''age'', ''r1'', ''r2''], rows = [[Fin 30, Fin (3/10), Fin 2], [Fin 31, Fin (1/10), Fin 2]]\<rparr> [[0, 1, 2], [0, 2, 1], [1, 0, 2]] ! k ! 0 ! 1) (Fin (- (1/5)))} = 1"
    by simp
  from h1 h2 d1 r1 c1 d2 r2 c2 show ?thesis by blast
qed

subsection \<open>\<^verbatim>\<open>IDSCN\<close> and \<^verbatim>\<open>count_significant.csv\<close>\<close>

lemma bind_Inr: "bind r f = Inr y \<Longrightarrow> \<exists>x. r = Inr x \<and> f x = Inr y"
  by (cases r) (simp_all add: bind_def)

lemma IDSCN_loop_df_n:
  "IDSCN_loop pc sf outPath covas regions ctrl PCCn pairs st = Inr st' \<Longrightarrow> df_n st' = df_n st"
proof (induction pairs arbitrary: st)
  case Nil
  then show ?case by simp
next
  case (Cons sp rest)
  obtain sub p where sp: "sp = (sub, p)" by (cases sp)
  from Cons.prems obtain st1 where
    rec: "IDSCN_loop pc sf outPath covas regions ctrl PCCn rest st1 = Inr st'"
    and keep: "df_n st1 = df_n st"
    unfolding sp IDSCN_loop.simps
    by (auto dest!: bind_Inr split: prod.splits)
  from Cons.IH [OF rec] keep show ?case by simp
qed

text \<open>
  Claim C2 on the code: whenever a run of \<^verbatim>\<open>IDSCN\<close> completes, the file
  \<^verbatim>\<open>count_significant.csv\<close> it writes has no row, whatever the number of patients. The
  row of a subject and its count is stored in \<^verbatim>\<open>df\<close>, the frame of the matrices, and
  \<^verbatim>\<open>df_n\<close>, the frame that is written to the file, is never changed.
\<close>

theorem IDSCN_count_significant_has_no_rows:
  assumes "IDSCN pc sf outPath covas regions ctrl pati_subs pa = Inr files"
  shows "file_rows files (outPath @ ''/count_significant.csv'') = Some []"
proof -
  from assms obtain df1 st where
    loop: "IDSCN_loop pc sf outPath covas regions ctrl (PCC pc covas regions ctrl)
             (zip pati_subs pa)
             \<lparr>df = df1, df_n = \<lparr>ncols = 2, cells = []\<rparr>,
              written = to_csv (outPath @ ''/PCCn.csv'') df1 []\<rparr> = Inr st"
    and files: "files = to_csv (outPath @ ''/count_significant.csv'') (df_n st) (written st)"
    unfolding IDSCN_def Let_def by (auto dest!: bind_Inr)
  from IDSCN_loop_df_n [OF loop] have "cells (df_n st) = []" by simp
  then show ?thesis by (simp add: files to_csv_def file_rows_def)
qed

text \<open>A run with two regions and one patient: six files, the last one without a row.\<close>

theorem IDSCN_count_significant_has_no_rows_witness:
  "IDSCN (\<lambda>g x y c. if length (rows g) = 3 then Fin (1/2) else Fin (4/5)) (\<lambda>x. 1 / (2 + 2 * x))
     ''out'' [''age''] [''r1'', ''r2'']
     \<lparr>columns = [''age'', ''r1'', ''r2''],
      rows = [[Fin 30, Fin 1, Fin 2], [Fin 40, Fin 2, Fin 3], [Fin 50, Fin 3, Fin 5]]\<rparr>
     [''s1''] [[Fin 35, Fin 9, Fin 1]]
   = Inr [(''out/PCCn.csv'', [[Num (Fin 1), Num (Fin (1/2))], [Num (Fin (1/2)), Num (Fin 1)]]),
          (''out/s1/s1_PCCn+1.csv'', [[Num (Fin 1), Num (Fin (4/5))], [Num (Fin (4/5)), Num (Fin 1)]]),
          (''out/s1/s1_Z.csv'', [[Num (Fin 1), Num (Fin (2/5))], [Num (Fin (2/5)), Num (Fin 1)]]),
          (''out/s1/s1_P.csv'', [[Num (Fin (1/2)), Num (Fin (5/7))], [Num (Fin (5/7)), Num (Fin (1/2))]]),
          (''out/s1/s1_P_FDR.csv'', [[Num (Fin (5/7)), Num (Fin (5/7))], [Num (Fin (5/7)), Num (Fin (5/7))]]),
          (''out/count_significant.csv'', [])] \<and>
   file_rows
     [(''out/PCCn.csv'', [[Num (Fin 1), Num (Fin (1/2))], [Num (Fin (1/2)), Num (Fin 1)]]),
      (''out/s1/s1_PCCn+1.csv'', [[Num (Fin 1), Num (Fin (4/5))], [Num (Fin (4/5)), Num (Fin 1)]]),
      (''out/s1/s1_Z.csv'', [[Num (Fin 1), Num (Fin (2/5))], [Num (Fin (2/5)), Num (Fin 1)]]),
      (''out/s1/s1_P.csv'', [[Num (Fin (1/2)), Num (Fin (5/7))], [Num (Fin (5/7)), Num (Fin (1/2))]]),
      (''out/s1/s1_P_FDR.csv'', [[Num (Fin (5/7)), Num (Fin (5/7))], [Num (Fin (5/7)), Num (Fin (5/7))]]),
      (''out/count_significant.csv'', [])]
     (''out'' @ ''/count_significant.csv'') = Some []"
proof -
  have run: "IDSCN (\<lambda>g x y c. if length (rows g) = 3 then Fin (1/2) else Fin (4/5)) (\<lambda>x. 1 / (2 + 2 * x))
     ''out'' [''age''] [''r1'', ''r2'']
     \<lparr>columns = [''age'', ''r1'', ''r2''],
      rows = [[Fin 30, Fin 1, Fin 2], [Fin 40, Fin 2, Fin 3], [Fin 50, Fin 3, Fin 5]]\<rparr>
     [''s1''] [[Fin 35, Fin 9, Fin 1]]
   = Inr [(''out/PCCn.csv'', [[Num (Fin 1), Num (Fin (1/2))], [Num (Fin (1/2)), Num (Fin 1)]]),
          (''out/s1/s1_PCCn+1.csv'', [[Num (Fin 1), Num (Fin (4/5))], [Num (Fin (4/5)), Num (Fin 1)]]),
          (''out/s1/s1_Z.csv'', [[Num (Fin 1), Num (Fin (2/5))], [Num (Fin (2/5)), Num (Fin 1)]]),
          (''out/s1/s1_P.csv'', [[Num (Fin (1/2)), Num (Fin (5/7))], [Num (Fin (5/7)), Num (Fin (1/2))]]),
          (''out/s1/s1_P_FDR.csv'', [[Num (Fin (5/7)), Num (Fin (5/7))], [Num (Fin (5/7)), Num (Fin (5/7))]]),
          (''out/count_significant.csv'', [])]"
    by code_simp
  from IDSCN_count_significant_has_no_rows [OF run] run show ?thesis by simp
qed

subsection \<open>The significance counts\<close>

lemma length_put: "length (put out ind vals) = length out"
proof -
  have "length (fold (\<lambda>(i, x) a. a[i := x]) zs out) = length out" for zs :: "(nat \<times> 'a) list"
    by (induction zs arbitrary: out) (auto split: prod.splits)
  then show ?thesis by (simp add: put_def)
qed

lemma length_fdrcorrection: "length (fdrcorrection v) = length v"
  by (simp add: fdrcorrection_def Let_def length_put)

lemma length_flatten_square: "square n M \<Longrightarrow> length (flatten M) = n * n"
proof -
  assume sq: "square n M"
  then have "map length M = replicate n n"
    by (auto simp: square_def list_all_length intro: nth_equalityI)
  then show ?thesis by (simp add: flatten_def length_concat sum_list_replicate)
qed

lemma square_reshape:
  assumes "length v = n * n"
  shows "square n (reshape v (n, n))"
proof -
  have "length (take n (drop (i * n) v)) = n" if "i < n" for i
  proof -
    from that have "Suc i \<le> n" by simp
    then have "Suc i * n \<le> n * n" by (rule mult_le_mono1)
    then have "i * n + n \<le> length v" using assms by simp
    then show ?thesis by simp
  qed
  then show ?thesis by (simp add: square_def reshape_def list_all_length)
qed

lemma square_P:
  assumes "square n Z"
  shows "square n (fst (P sf Z))" and "square n (snd (P sf Z))"
proof -
  let ?p = "map_matrix (\<lambda>z. np_mul (np_sf sf (np_abs z)) (Fin 2)) Z"
  have p: "square n ?p" by (rule square_map_matrix [OF assms])
  then show "square n (fst (P sf Z))" by (simp add: P_def Let_def)
  have "length (fdrcorrection (flatten ?p)) = n * n"
    by (simp add: length_fdrcorrection length_flatten_square [OF p])
  then show "square n (snd (P sf Z))"
    by (simp add: P_def Let_def shape_square [OF p] square_reshape)
qed

lemma set_argwhere:
  "set (argwhere cond M) = {(i, j). i < length M \<and> j < length (M ! i) \<and> cond (M ! i ! j)}"
  by (auto simp: argwhere_def)

lemma set_argwhere_square:
  "square n M \<Longrightarrow>
   (a, b) \<in> set (argwhere cond M) \<longleftrightarrow> a < n \<and> b < n \<and> cond (M ! a ! b)"
  by (auto simp: set_argwhere square_def list_all_length)

lemma fold_set_entry:
  assumes "\<forall>z\<in>set zs. fst (fst z) < n \<and> snd (fst z) < n"
  shows "square n A \<Longrightarrow>
         square n (fold (\<lambda>((i, j), v) B. set_entry B i j v) zs A) \<and>
         (\<forall>a<n. \<forall>b<n. fold (\<lambda>((i, j), v) B. set_entry B i j v) zs A ! a ! b =
            (case map_of (rev zs) (a, b) of None \<Rightarrow> A ! a ! b | Some v \<Rightarrow> v))"
  using assms
proof (induction zs arbitrary: A)
  case Nil
  then show ?case by simp
next
  case (Cons z zs)
  obtain i j v where z: "z = ((i, j), v)" by (cases z) auto
  from Cons.prems z have i: "i < n" and j: "j < n" by auto
  let ?A = "set_entry A i j v"
  have sq: "square n ?A" by (rule square_set_entry [OF Cons.prems(1) i])
  from Cons.prems(2) have rest: "\<forall>z\<in>set zs. fst (fst z) < n \<and> snd (fst z) < n" by simp
  from Cons.IH [OF sq rest]
  have IH: "square n (fold (\<lambda>((i, j), v) B. set_entry B i j v) zs ?A)"
    and IHv: "\<forall>a<n. \<forall>b<n. fold (\<lambda>((i, j), v) B. set_entry B i j v) zs ?A ! a ! b =
            (case map_of (rev zs) (a, b) of None \<Rightarrow> ?A ! a ! b | Some v \<Rightarrow> v)"
    by auto
  have "fold (\<lambda>((i, j), v) B. set_entry B i j v) (z # zs) A ! a ! b =
            (case map_of (rev (z # zs)) (a, b) of None \<Rightarrow> A ! a ! b | Some v \<Rightarrow> v)"
    if "a < n" and "b < n" for a b
    using IHv that set_entry_nth [OF Cons.prems(1) i j that, of v]
    by (auto simp: z map_add_def split: option.splits)
  then show ?case using IH by (simp add: z)
qed

lemma fancy_increment_entries:
  assumes "square n S" and "\<forall>(i, j)\<in>set ind. i < n \<and> j < n"
  shows "\<exists>S'. fancy_increment S ind = Inr S' \<and> square n S' \<and>
           (\<forall>a<n. \<forall>b<n. S' ! a ! b =
              (if (a, b) \<in> set ind then np_add (S ! a ! b) (Fin 1) else S ! a ! b))"
proof -
  let ?g = "\<lambda>(i, j). np_add (S ! i ! j) (Fin 1)"
  let ?zs = "zip ind (map ?g ind)"
  let ?S' = "fold (\<lambda>((i, j), v) B. set_entry B i j v) ?zs S"
  have inr: "fancy_increment S ind = Inr ?S'"
    using assms by (auto simp: fancy_increment_def shape_square list_all_iff)
  have dom: "\<forall>z\<in>set ?zs. fst (fst z) < n \<and> snd (fst z) < n"
    using assms(2) by (auto dest!: set_zip_leftD)
  have m: "map_of (rev ?zs) k = (if k \<in> set ind then Some (?g k) else None)" for k
  proof -
    have "rev ?zs = zip (rev ind) (map ?g (rev ind))"
      using zip_rev [of ind "map ?g ind"] by (simp add: rev_map)
    then show ?thesis by (simp add: map_of_zip_map)
  qed
  from fold_set_entry [OF dom assms(1)]
  have "square n ?S'"
    and "\<forall>a<n. \<forall>b<n. ?S' ! a ! b =
            (case map_of (rev ?zs) (a, b) of None \<Rightarrow> S ! a ! b | Some v \<Rightarrow> v)"
    by auto
  then show ?thesis using inr by (auto simp: m)
qed

lemma significant_step:
  assumes "square n S" and "square n Pm"
  shows "\<exists>S'. square n S' \<and>
           (\<forall>a<n. \<forall>b<n. S' ! a ! b =
              (if np_lt (Pm ! a ! b) (Fin (5 / 100)) then np_add (S ! a ! b) (Fin 1)
               else S ! a ! b)) \<and>
           (\<forall>k. (if length (argwhere (\<lambda>x. np_lt x (Fin (5 / 100))) Pm) > 0
                 then bind (fancy_increment S (argwhere (\<lambda>x. np_lt x (Fin (5 / 100))) Pm))
                        (\<lambda>S2. k (Some S2))
                 else k (Some S)) = (k (Some S') :: py_error + matrix option))"
proof (cases "argwhere (\<lambda>x. np_lt x (Fin (5 / 100))) Pm = []")
  case True
  have "\<not> np_lt (Pm ! a ! b) (Fin (5 / 100))" if "a < n" and "b < n" for a b
    using set_argwhere_square [OF assms(2), of a b "\<lambda>x. np_lt x (Fin (5 / 100))"] True that
    by simp
  then show ?thesis using True assms(1) by auto
next
  case False
  let ?ind = "argwhere (\<lambda>x. np_lt x (Fin (5 / 100))) Pm"
  have rng: "\<forall>(i, j)\<in>set ?ind. i < n \<and> j < n"
    using set_argwhere_square [OF assms(2)] by auto
  from fancy_increment_entries [OF assms(1) rng] obtain S' where
    S': "fancy_increment S ?ind = Inr S'" "square n S'"
    "\<forall>a<n. \<forall>b<n. S' ! a ! b =
        (if (a, b) \<in> set ?ind then np_add (S ! a ! b) (Fin 1) else S ! a ! b)"
    by blast
  have "\<forall>a<n. \<forall>b<n. S' ! a ! b =
          (if np_lt (Pm ! a ! b) (Fin (5 / 100)) then np_add (S ! a ! b) (Fin 1) else S ! a ! b)"
    using S'(3) set_argwhere_square [OF assms(2)] by simp
  then show ?thesis using S'(1,2) False by (auto simp: bind_def)
qed


lemma significant_count_Cons:
  "significant_count (Pm # Ps) a b =
     (if np_lt (Pm ! a ! b) (Fin (5 / 100)) then 1 else 0) + significant_count Ps a b"
  by (simp add: significant_count_def)

lemma subtype_significant_counts:
  assumes "list_all (square n) Zs" and "square n S"
    and "\<forall>a<n. \<forall>b<n. S ! a ! b = Fin (real (c a b))"
  shows "\<exists>S'. subtype_significant sf Zs (Some S) = Inr (Some S') \<and> square n S' \<and>
           (\<forall>a<n. \<forall>b<n. S' ! a ! b =
              Fin (real (c a b + significant_count (map (\<lambda>Z. snd (P sf Z)) Zs) a b)))"
  using assms
proof (induction Zs arbitrary: S c)
  case Nil
  then show ?case by (simp add: significant_count_def)
next
  case (Cons Z rest)
  let ?Pm = "snd (P sf Z)"
  let ?c = "\<lambda>a b. c a b + (if np_lt (?Pm ! a ! b) (Fin (5 / 100)) then 1 else 0)"
  from Cons.prems(1) have Z: "square n Z" and rest: "list_all (square n) rest" by simp_all
  from significant_step [OF Cons.prems(2) square_P(2) [OF Z, of sf]] obtain S1 where
    S1: "square n S1"
    and S1v: "\<forall>a<n. \<forall>b<n. S1 ! a ! b =
              (if np_lt (?Pm ! a ! b) (Fin (5 / 100)) then np_add (S ! a ! b) (Fin 1)
               else S ! a ! b)"
    and step: "\<And>k. (if length (argwhere (\<lambda>x. np_lt x (Fin (5 / 100))) ?Pm) > 0
                 then bind (fancy_increment S (argwhere (\<lambda>x. np_lt x (Fin (5 / 100))) ?Pm))
                        (\<lambda>S2. k (Some S2))
                 else k (Some S)) = (k (Some S1) :: py_error + matrix option)"
    by blast
  have run: "subtype_significant sf (Z # rest) (Some S) = subtype_significant sf rest (Some S1)"
    unfolding subtype_significant.simps Let_def option.case
    by (rule step [of "subtype_significant sf rest"])
  have c': "\<forall>a<n. \<forall>b<n. S1 ! a ! b = Fin (real (?c a b))"
    using S1v Cons.prems(3) by simp
  from Cons.IH [OF rest S1 c'] obtain S' where
    "subtype_significant sf rest (Some S1) = Inr (Some S')" "square n S'"
    "\<forall>a<n. \<forall>b<n. S' ! a ! b =
        Fin (real (?c a b + significant_count (map (\<lambda>Z. snd (P sf Z)) rest) a b))"
    by blast
  then show ?case unfolding run by (auto simp: significant_count_Cons)
qed

lemma getConnection_significant_counts:
  assumes "list_all (square n) Zs" and "square n S"
    and "\<forall>a<n. \<forall>b<n. S ! a ! b = Fin (real (c a b))"
  shows "\<exists>S'. getConnection_significant sf fdr Zs (Some S) = Inr (Some S') \<and> square n S' \<and>
           (\<forall>a<n. \<forall>b<n. S' ! a ! b =
              Fin (real (c a b + significant_count
                    (map (\<lambda>Z. if fdr then snd (P sf Z) else fst (P sf Z)) Zs) a b)))"
  using assms
proof (induction Zs arbitrary: S c)
  case Nil
  then show ?case by (simp add: significant_count_def)
next
  case (Cons Z rest)
  let ?Pm = "if fdr then snd (P sf Z) else fst (P sf Z)"
  let ?c = "\<lambda>a b. c a b + (if np_lt (?Pm ! a ! b) (Fin (5 / 100)) then 1 else 0)"
  from Cons.prems(1) have Z: "square n Z" and rest: "list_all (square n) rest" by simp_all
  have Pm: "square n ?Pm" using square_P [OF Z, of sf] by simp
  from significant_step [OF Cons.prems(2) Pm] obtain S1 where
    S1: "square n S1"
    and S1v: "\<forall>a<n. \<forall>b<n. S1 ! a ! b =
              (if np_lt (?Pm ! a ! b) (Fin (5 / 100)) then np_add (S ! a ! b) (Fin 1)
               else S ! a ! b)"
    and step: "\<And>k. (if length (argwhere (\<lambda>x. np_lt x (Fin (5 / 100))) ?Pm) > 0
                 then bind (fancy_increment S (argwhere (\<lambda>x. np_lt x (Fin (5 / 100))) ?Pm))
                        (\<lambda>S2. k (Some S2))
                 else k (Some S)) = (k (Some S1) :: py_error + matrix option)"
    by blast
  have run: "getConnection_significant sf fdr (Z # rest) (Some S) =
               getConnection_significant sf fdr rest (Some S1)"
  proof (cases fdr)
    case True
    then have eq: "fdr = True" by simp
    show ?thesis
      using step [of "getConnection_significant sf True rest"]
      unfolding eq getConnection_significant.simps Let_def option.case if_True .
  next
    case False
    then have eq: "fdr = False" by simp
    show ?thesis
      using step [of "getConnection_significant sf False rest"]
      unfolding eq getConnection_significant.simps Let_def option.case if_False .
  qed
  have c': "\<forall>a<n. \<forall>b<n. S1 ! a ! b = Fin (real (?c a b))"
    using S1v Cons.prems(3) by simp
  from Cons.IH [OF rest S1 c'] obtain S' where
    "getConnection_significant sf fdr rest (Some S1) = Inr (Some S')" "square n S'"
    "\<forall>a<n. \<forall>b<n. S' ! a ! b =
        Fin (real (?c a b + significant_count
              (map (\<lambda>Z. if fdr then snd (P sf Z) else fst (P sf Z)) rest) a b))"
    by blast
  then show ?case unfolding run by (auto simp: significant_count_Cons)
qed

lemma subtype_significant_None:
  "subtype_significant sf (Z # rest) None =
   subtype_significant sf (Z # rest) (Some (np_zeros (shape Z)))"
  by (simp add: Let_def)

lemma getConnection_significant_None:
  "getConnection_significant sf fdr (Z # rest) None =
   getConnection_significant sf fdr (Z # rest) (Some (np_zeros (shape Z)))"
  by (simp add: Let_def)

text \<open>
  Claim C9. Over the Z matrices of the patients, the count matrix of \<^verbatim>\<open>subtype\<close> holds
  at each position the number of patients whose FDR-corrected p-value there is below
  0.05; that of \<^verbatim>\<open>getConnection\<close> called without \<^verbatim>\<open>fdr\<close>, or with \<^verbatim>\<open>fdr=False\<close>, the
  number of patients whose uncorrected p-value is below 0.05; with \<^verbatim>\<open>fdr=True\<close> it is
  the matrix of \<^verbatim>\<open>subtype\<close>.
\<close>

theorem significance_thresholds:
  assumes "list_all (square n) Zs" and "Zs \<noteq> []"
  shows "(\<exists>S. subtype sf Zs = Inr (Some S) \<and>
            (\<forall>a<n. \<forall>b<n. S ! a ! b =
               Fin (real (significant_count (map (\<lambda>Z. snd (P sf Z)) Zs) a b)))) \<and>
         (\<exists>S. getConnection sf None Zs = Inr (Some S) \<and>
            (\<forall>a<n. \<forall>b<n. S ! a ! b =
               Fin (real (significant_count (map (\<lambda>Z. fst (P sf Z)) Zs) a b)))) \<and>
         getConnection sf (Some False) Zs = getConnection sf None Zs \<and>
         getConnection sf (Some True) Zs = subtype sf Zs"
proof -
  from assms(2) obtain Z rest where Zs: "Zs = Z # rest" by (cases Zs) auto
  from assms(1) have Z: "square n Z" by (simp add: Zs)
  have z0: "square n (np_zeros (shape Z))"
    by (simp add: shape_square [OF Z] square_np_zeros)
  have z0v: "\<forall>a<n. \<forall>b<n. np_zeros (shape Z) ! a ! b = Fin (real ((\<lambda>a b. 0) a b))"
    by (simp add: shape_square [OF Z] np_zeros_nth)
  have s: "\<exists>S. subtype sf Zs = Inr (Some S) \<and>
            (\<forall>a<n. \<forall>b<n. S ! a ! b =
               Fin (real (significant_count (map (\<lambda>Z. snd (P sf Z)) Zs) a b)))"
    using subtype_significant_counts [OF assms(1) z0 z0v, of sf]
    unfolding subtype_def Zs subtype_significant_None by auto
  have g: "\<exists>S. getConnection_significant sf fdr Zs None = Inr (Some S) \<and>
            (\<forall>a<n. \<forall>b<n. S ! a ! b =
               Fin (real (significant_count
                     (map (\<lambda>Z. if fdr then snd (P sf Z) else fst (P sf Z)) Zs) a b)))" for fdr
    using getConnection_significant_counts [OF assms(1) z0 z0v, of sf fdr]
    unfolding Zs getConnection_significant_None by auto
  have t: "getConnection sf (Some True) Zs = subtype sf Zs"
  proof -
    from g [of True] obtain S1 where
      1: "getConnection_significant sf True Zs None = Inr (Some S1)"
      and 2: "\<forall>a<n. \<forall>b<n. S1 ! a ! b =
               Fin (real (significant_count (map (\<lambda>Z. snd (P sf Z)) Zs) a b))"
      by auto
    have "getConnection_significant sf True Zs sg = subtype_significant sf Zs sg" for sg
      by (induction Zs arbitrary: sg) (simp_all add: Let_def)
    then show ?thesis by (simp add: getConnection_def subtype_def)
  qed
  show ?thesis
    using s g [of False] t by (simp add: getConnection_def)
qed

text \<open>
  One patient with Z = 2 at the edge \<open>(0, 1)\<close>: the p-value 0.0455 there is below 0.05,
  the corrected one, 0.182, is not. The survival function is given by its values at
  0, 1 and 2, rounded to four digits.
\<close>

theorem significance_thresholds_witness:
  "list_all (square 2) [[[Fin 1, Fin 2], [Fin 0, Fin 1]]] \<and>
   [[[Fin 1, Fin 2], [Fin 0, Fin 1]]] \<noteq> ([] :: matrix list) \<and>
   P (\<lambda>x. if x = 0 then 1 / 2 else if x = 1 then 1587 / 10000
           else if x = 2 then 2275 / 100000 else 0) [[Fin 1, Fin 2], [Fin 0, Fin 1]]
     = ([[Fin (1587 / 5000), Fin (91 / 2000)], [Fin 1, Fin (1587 / 5000)]],
        [[Fin (1587 / 3750), Fin (91 / 500)], [Fin 1, Fin (1587 / 3750)]]) \<and>
   subtype (\<lambda>x. if x = 0 then 1 / 2 else if x = 1 then 1587 / 10000
                 else if x = 2 then 2275 / 100000 else 0) [[[Fin 1, Fin 2], [Fin 0, Fin 1]]]
     = Inr (Some [[Fin 0, Fin 0], [Fin 0, Fin 0]]) \<and>
   getConnection (\<lambda>x. if x = 0 then 1 / 2 else if x = 1 then 1587 / 10000
                       else if x = 2 then 2275 / 100000 else 0) None
       [[[Fin 1, Fin 2], [Fin 0, Fin 1]]]
     = Inr (Some [[Fin 0, Fin 1], [Fin 0, Fin 0]]) \<and>
   getConnection (\<lambda>x. if x = 0 then 1 / 2 else if x = 1 then 1587 / 10000
                       else if x = 2 then 2275 / 100000 else 0) (Some True)
       [[[Fin 1, Fin 2], [Fin 0, Fin 1]]]
     = Inr (Some [[Fin 0, Fin 0], [Fin 0, Fin 0]])"
proof -
  have a: "list_all (square 2) [[[Fin 1, Fin 2], [Fin 0, Fin 1]]]"
    by (simp add: square_def)
  have b: "[[[Fin 1, Fin 2], [Fin 0, Fin 1]]] \<noteq> ([] :: matrix list)" by simp
  have p: "P (\<lambda>x. if x = 0 then 1 / 2 else if x = 1 then 1587 / 10000
           else if x = 2 then 2275 / 100000 else 0) [[Fin 1, Fin 2], [Fin 0, Fin 1]]
     = ([[Fin (1587 / 5000), Fin (91 / 2000)], [Fin 1, Fin (1587 / 5000)]],
        [[Fin (1587 / 3750), Fin (91 / 500)], [Fin 1, Fin (1587 / 3750)]])"
    by code_simp
  have s: "subtype (\<lambda>x. if x = 0 then 1 / 2 else if x = 1 then 1587 / 10000
                 else if x = 2 then 2275 / 100000 else 0) [[[Fin 1, Fin 2], [Fin 0, Fin 1]]]
     = Inr (Some [[Fin 0, Fin 0], [Fin 0, Fin 0]])"
    by code_simp
  have g: "getConnection (\<lambda>x. if x = 0 then 1 / 2 else if x = 1 then 1587 / 10000
                       else if x = 2 then 2275 / 100000 else 0) None
       [[[Fin 1, Fin 2], [Fin 0, Fin 1]]]
     = Inr (Some [[Fin 0, Fin 1], [Fin 0, Fin 0]])"
    by code_simp
  from significance_thresholds [OF a b, of "\<lambda>x. if x = 0 then 1 / 2 else if x = 1 then 1587 / 10000
                       else if x = 2 then 2275 / 100000 else 0"]
  have "getConnection (\<lambda>x. if x = 0 then 1 / 2 else if x = 1 then 1587 / 10000
                       else if x = 2 then 2275 / 100000 else 0) (Some True)
          [[[Fin 1, Fin 2], [Fin 0, Fin 1]]] =
        subtype (\<lambda>x. if x = 0 then 1 / 2 else if x = 1 then 1587 / 10000
                 else if x = 2 then 2275 / 100000 else 0) [[[Fin 1, Fin 2], [Fin 0, Fin 1]]]"
    by blast
  with a b p s g show ?thesis by simp
qed

subsection \<open>The FDR correction\<close>

lemma is_probability_iff: "is_probability x \<longleftrightarrow> (\<exists>r. x = Fin r \<and> 0 \<le> r \<and> r \<le> 1)"
  by (cases x) auto

lemma set_insert_index: "set (insert_index v i js) = insert i (set js)"
  by (induction js) auto

lemma length_insert_index: "length (insert_index v i js) = Suc (length js)"
  by (induction js) auto

lemma distinct_insert_index:
  "distinct js \<Longrightarrow> i \<notin> set js \<Longrightarrow> distinct (insert_index v i js)"
  by (induction js) (auto simp: set_insert_index)

lemma sorted_insert_index:
  assumes "\<forall>k\<in>insert i (set js). v ! k = Fin (f k)"
    and "sorted_wrt (\<lambda>a b. f a \<le> f b) js"
  shows "sorted_wrt (\<lambda>a b. f a \<le> (f b :: real)) (insert_index v i js)"
  using assms
proof (induction js)
  case Nil
  then show ?case by simp
next
  case (Cons j js)
  from Cons.prems(1) have i: "v ! i = Fin (f i)" and j: "v ! j = Fin (f j)" by auto
  have sb: "sorts_before (v ! i) (v ! j) \<longleftrightarrow> f i \<le> f j"
    by (simp add: i j not_less)
  show ?case
  proof (cases "f i \<le> f j")
    case True
    then show ?thesis using Cons.prems(2) sb by auto
  next
    case False
    have "sorted_wrt (\<lambda>a b. f a \<le> f b) (insert_index v i js)"
      using Cons by auto
    then show ?thesis
      using False Cons.prems(2) sb by (auto simp: set_insert_index)
  qed
qed

lemma argsort_foldr:
  assumes "distinct ks"
  shows "set (foldr (insert_index v) ks []) = set ks \<and>
         distinct (foldr (insert_index v) ks []) \<and>
         length (foldr (insert_index v) ks []) = length ks"
  using assms
  by (induction ks) (auto simp: set_insert_index length_insert_index distinct_insert_index)

lemma argsort_perm:
  "set (argsort v) = {0..<length v}" "distinct (argsort v)" "length (argsort v) = length v"
  using argsort_foldr [of "[0..<length v]" v] by (simp_all add: argsort_def)

lemma sorted_foldr_insert_index:
  assumes "\<forall>k\<in>set ks. v ! k = Fin (f k)"
  shows "sorted_wrt (\<lambda>a b. f a \<le> (f b :: real)) (foldr (insert_index v) ks [])"
  using assms
proof (induction ks)
  case Nil
  then show ?case by simp
next
  case (Cons k ks)
  have s: "set (foldr (insert_index v) ks []) = set ks"
    by (induction ks) (auto simp: set_insert_index)
  show ?case
    using Cons by (auto intro!: sorted_insert_index simp: s)
qed

lemma argsort_sorted:
  assumes "\<forall>k<length v. v ! k = Fin (f k)"
  shows "sorted_wrt (\<lambda>a b. f a \<le> (f b :: real)) (argsort v)"
  unfolding argsort_def using assms by (intro sorted_foldr_insert_index) simp

lemma length_accumulate_from: "length (accumulate_from a ys) = length ys"
  by (induction ys arbitrary: a) auto

lemma length_minimum_accumulate: "length (minimum_accumulate xs) = length xs"
  by (cases xs) (auto simp: length_accumulate_from)

lemma np_minimum_Fin: "np_minimum (Fin a) (Fin b) = Fin (min a b)"
  by (auto simp: np_minimum_def min_def)

lemma accumulate_from_bound:
  assumes "k < length ys" and "t \<le> ra"
    and "\<forall>l\<le>k. \<exists>r. ys ! l = Fin r \<and> t \<le> r"
  shows "\<exists>c. accumulate_from (Fin ra) ys ! k = Fin c \<and> t \<le> c"
  using assms
proof (induction ys arbitrary: ra k)
  case Nil
  then show ?case by simp
next
  case (Cons y ys)
  from Cons.prems(3) obtain r where y: "y = Fin r" and r: "t \<le> r" by fastforce
  show ?case
  proof (cases k)
    case 0
    then show ?thesis using y r Cons.prems(2) by (simp add: np_minimum_Fin)
  next
    case (Suc k')
    have b: "\<forall>l\<le>k'. \<exists>r. ys ! l = Fin r \<and> t \<le> r"
    proof (intro allI impI)
      fix l assume "l \<le> k'"
      then have "Suc l \<le> k" using Suc by simp
      with Cons.prems(3) show "\<exists>r. ys ! l = Fin r \<and> t \<le> r" by fastforce
    qed
    have k': "k' < length ys" using Cons.prems(1) Suc by simp
    have m: "t \<le> min ra r" using r Cons.prems(2) by simp
    have "\<exists>c. accumulate_from (Fin (min ra r)) ys ! k' = Fin c \<and> t \<le> c"
      by (rule Cons.IH [OF k' m b])
    then show ?thesis using Suc y by (simp add: np_minimum_Fin)
  qed
qed

lemma minimum_accumulate_bound:
  assumes "k < length xs" and "\<forall>l\<le>k. \<exists>r. xs ! l = Fin r \<and> t \<le> r"
  shows "\<exists>c. minimum_accumulate xs ! k = Fin c \<and> t \<le> c"
proof (cases xs)
  case Nil
  then show ?thesis using assms by simp
next
  case (Cons x ys)
  from assms(2) Cons obtain r where x: "x = Fin r" and r: "t \<le> r" by fastforce
  show ?thesis
  proof (cases k)
    case 0
    then show ?thesis using Cons x r by simp
  next
    case (Suc k')
    have b: "\<forall>l\<le>k'. \<exists>r. ys ! l = Fin r \<and> t \<le> r"
    proof (intro allI impI)
      fix l assume "l \<le> k'"
      then have "Suc l \<le> k" using Suc by simp
      with assms(2) Cons show "\<exists>r. ys ! l = Fin r \<and> t \<le> r" by fastforce
    qed
    have k': "k' < length ys" using assms(1) Suc Cons by simp
    have "\<exists>c. accumulate_from (Fin r) ys ! k' = Fin c \<and> t \<le> c"
      by (rule accumulate_from_bound [OF k' r b])
    then show ?thesis using Suc Cons x by simp
  qed
qed

lemma put_nth_other:
  "i \<notin> set ind \<Longrightarrow> put out ind vals ! i = out ! i"
proof -
  have "i \<notin> fst ` set zs \<Longrightarrow> fold (\<lambda>(i, x) a. a[i := x]) zs out ! i = out ! i"
    for zs :: "(nat \<times> 'a) list"
    by (induction zs arbitrary: out) (auto split: prod.splits)
  moreover have "fst ` set (zip ind vals) \<subseteq> set ind"
    by (auto dest: set_zip_leftD)
  ultimately show "i \<notin> set ind \<Longrightarrow> put out ind vals ! i = out ! i"
    unfolding put_def by blast
qed

lemma put_Cons: "put out (i # ind) (x # vals) = put (out[i := x]) ind vals"
  by (simp add: put_def)

lemma put_nth:
  assumes "distinct ind" and "length ind = length vals" and "\<forall>i\<in>set ind. i < length out"
    and "k < length ind"
  shows "put out ind vals ! (ind ! k) = vals ! k"
  using assms
proof (induction ind arbitrary: vals out k)
  case Nil
  then show ?case by simp
next
  case (Cons i ind)
  from Cons.prems(2) obtain x xs where vals: "vals = x # xs" by (cases vals) auto
  show ?case
  proof (cases k)
    case 0
    have "put (out[i := x]) ind xs ! i = out[i := x] ! i"
      using Cons.prems(1) by (intro put_nth_other) simp
    then show ?thesis using 0 vals Cons.prems(3) by (simp add: put_Cons)
  next
    case (Suc k')
    have "put (out[i := x]) ind xs ! (ind ! k') = xs ! k'"
      using Cons.prems vals Suc by (intro Cons.IH) auto
    then show ?thesis using Suc vals by (simp add: put_Cons)
  qed
qed

lemma np_ge_Fin: "np_ge (Fin a) (Fin b) \<longleftrightarrow> b \<le> a"
  by (simp add: np_ge_def not_less)

lemma le_divide_unit:
  fixes x e :: real
  assumes "0 \<le> x" and "0 < e" and "e \<le> 1"
  shows "x \<le> x / e"
proof -
  have "x * e \<le> x * 1" by (rule mult_left_mono [OF assms(3,1)])
  then show ?thesis using assms(2) by (simp only: pos_le_divide_eq mult_1_right)
qed

lemma fdrcorrection_ge:
  assumes "list_all is_probability v" and "i < length v"
  shows "np_ge (fdrcorrection v ! i) (v ! i)"
proof -
  define m where "m = length v"
  define f where "f k = (case v ! k of Fin r \<Rightarrow> r | _ \<Rightarrow> 0)" for k
  have v: "v ! k = Fin (f k) \<and> 0 \<le> f k \<and> f k \<le> 1" if "k < m" for k
  proof -
    from assms(1) that have "is_probability (v ! k)"
      by (simp add: list_all_length m_def)
    then show ?thesis by (auto simp: is_probability_iff f_def)
  qed
  define sortind where "sortind = argsort v"
  have set_s: "set sortind = {0..<m}" and dist: "distinct sortind" and len: "length sortind = m"
    by (simp_all add: sortind_def argsort_perm m_def)
  have sorted: "sorted_wrt (\<lambda>a b. f a \<le> f b) sortind"
    unfolding sortind_def by (rule argsort_sorted) (use v in \<open>simp add: m_def\<close>)
  have rng: "sortind ! l < m" if "l < m" for l
    using set_s len that nth_mem [of l sortind] by auto
  from assms(2) have "i \<in> set sortind" by (simp add: set_s m_def)
  then obtain k where k: "k < m" and ki: "sortind ! k = i"
    by (auto simp: in_set_conv_nth len)
  define raw where
    "raw = map2 np_div (map (\<lambda>i. v ! i) sortind) (map (\<lambda>k. Fin (real (k + 1) / real m)) [0..<m])"
  have lraw: "length raw = m" by (simp add: raw_def len)
  have raw: "\<exists>r. raw ! l = Fin r \<and> f i \<le> r" if "k \<le> l" and "l < m" for l
  proof -
    let ?e = "real (l + 1) / real m"
    from that have m: "0 < m" by simp
    have e: "0 < ?e" and e1: "?e \<le> 1" using that m by simp_all
    have x: "v ! (sortind ! l) = Fin (f (sortind ! l))" and x0: "0 \<le> f (sortind ! l)"
      using v [OF rng [OF that(2)]] by simp_all
    have "raw ! l = np_div (Fin (f (sortind ! l))) (Fin ?e)"
      using that by (simp add: raw_def len x)
    moreover have "?e \<noteq> 0" using m by simp
    ultimately have val: "raw ! l = Fin (f (sortind ! l) / ?e)"
      by (simp only: np_div.simps if_False)
    have a: "f i \<le> f (sortind ! l)"
    proof (cases "k = l")
      case True
      then show ?thesis using ki by simp
    next
      case False
      with that have "k < l" by simp
      then show ?thesis
        using sorted that ki by (auto simp: sorted_wrt_iff_nth_less len)
    qed
    have "f (sortind ! l) \<le> f (sortind ! l) / ?e"
      by (rule le_divide_unit [OF x0 e e1])
    with a val show ?thesis by simp
  qed
  define corrected where "corrected = rev (minimum_accumulate (rev raw))"
  have lcor: "length corrected = m"
    by (simp add: corrected_def length_minimum_accumulate lraw)
  have "\<exists>c. minimum_accumulate (rev raw) ! (m - Suc k) = Fin c \<and> f i \<le> c"
  proof (rule minimum_accumulate_bound)
    show "m - Suc k < length (rev raw)" using k by (simp add: lraw)
    show "\<forall>l\<le>m - Suc k. \<exists>r. rev raw ! l = Fin r \<and> f i \<le> r"
    proof (intro allI impI)
      fix l assume l: "l \<le> m - Suc k"
      then have lm: "l < m" using k by simp
      have "rev raw ! l = raw ! (m - Suc l)"
        using lm by (simp add: rev_nth lraw)
      moreover have "k \<le> m - Suc l" and "m - Suc l < m" using l k by simp_all
      ultimately show "\<exists>r. rev raw ! l = Fin r \<and> f i \<le> r"
        using raw by simp
    qed
  qed
  moreover have "corrected ! k = minimum_accumulate (rev raw) ! (m - Suc k)"
    using k by (simp add: corrected_def rev_nth length_minimum_accumulate lraw)
  ultimately obtain c where c: "corrected ! k = Fin c" and fc: "f i \<le> c" by auto
  define clipped where "clipped = map (\<lambda>x. if np_gt x (Fin 1) then Fin 1 else x) corrected"
  have lclip: "length clipped = m" by (simp add: clipped_def lcor)
  have "clipped ! k = (if np_gt (Fin c) (Fin 1) then Fin 1 else Fin c)"
    using k by (simp add: clipped_def lcor c)
  moreover have "f i \<le> 1" using v [of i] assms(2) by (simp add: m_def)
  ultimately obtain c' where c': "clipped ! k = Fin c'" and fc': "f i \<le> c'"
    using fc by (cases "np_gt (Fin c) (Fin 1)") auto
  have out: "fdrcorrection v = put (replicate m NaN) sortind clipped"
    by (simp add: fdrcorrection_def Let_def m_def sortind_def raw_def corrected_def clipped_def)
  have "put (replicate m NaN) sortind clipped ! (sortind ! k) = clipped ! k"
  proof (rule put_nth [OF dist])
    show "length sortind = length clipped" by (simp add: len lclip)
    show "\<forall>i\<in>set sortind. i < length (replicate m NaN)" by (simp add: set_s)
    show "k < length sortind" using k by (simp add: len)
  qed
  then have "fdrcorrection v ! i = Fin c'" by (simp add: out ki c')
  moreover have "v ! i = Fin (f i)" using v [of i] assms(2) by (simp add: m_def)
  ultimately show ?thesis using fc' by (simp add: np_ge_Fin)
qed

lemma concat_nth_uniform:
  assumes "\<forall>r\<in>set M. length r = c"
  shows "i < length M \<Longrightarrow> j < c \<Longrightarrow> concat M ! (i * c + j) = M ! i ! j"
  using assms
proof (induction M arbitrary: i)
  case Nil
  then show ?case by simp
next
  case (Cons r M)
  show ?case
  proof (cases i)
    case 0
    then show ?thesis using Cons.prems by (simp add: nth_append)
  next
    case (Suc i')
    have "concat M ! (i' * c + j) = M ! i' ! j"
      using Cons.prems Suc by (intro Cons.IH) auto
    moreover have "length r = c" using Cons.prems by simp
    ultimately show ?thesis using Suc by (simp add: nth_append)
  qed
qed

lemma flatten_nth:
  "square n M \<Longrightarrow> i < n \<Longrightarrow> j < n \<Longrightarrow> flatten M ! (i * n + j) = M ! i ! j"
  unfolding flatten_def
  by (rule concat_nth_uniform) (auto simp: square_def list_all_iff)

lemma index_bound: "i < n \<Longrightarrow> j < n \<Longrightarrow> i * n + j < n * (n::nat)"
proof -
  assume i: "i < n" and j: "j < n"
  then have "i * n + j < i * n + n" by simp
  also have "\<dots> = Suc i * n" by simp
  also have "\<dots> \<le> n * n" using i by (metis Suc_leI mult_le_mono1)
  finally show ?thesis .
qed

lemma reshape_nth:
  assumes "length v = n * n" and "i < n" and "j < n"
  shows "reshape v (n, n) ! i ! j = v ! (i * n + j)"
proof -
  have "i * n + j < length v" using index_bound [OF assms(2,3)] assms(1) by simp
  then show ?thesis using assms(2,3) by (simp add: reshape_def)
qed

lemma p_value_is_probability:
  assumes "\<forall>x\<ge>0. 0 \<le> sf x \<and> sf x \<le> 1 / 2" and "z \<noteq> NaN"
  shows "is_probability (np_mul (np_sf sf (np_abs z)) (Fin 2))"
proof (cases z)
  case (Fin a)
  from assms(1) have "0 \<le> sf \<bar>a\<bar>" and "sf \<bar>a\<bar> \<le> 1 / 2" by simp_all
  then show ?thesis using Fin by simp
qed (use assms(2) in simp_all)

text \<open>
  Claim C7, as amended. For a square Z matrix without a NaN entry, every entry of the
  FDR-corrected p-matrix returned by \<^verbatim>\<open>P\<close> is greater than or equal to the entry of the
  raw two-sided p-matrix at the same position; the correction runs over all entries
  of the flattened matrix, the diagonal included. The survival function is any
  function with values between 0 and 1/2 on the non-negative reals.
\<close>

theorem FDR_P_ge_P:
  assumes "square n Z" and "list_all (list_all (\<lambda>z. z \<noteq> NaN)) Z"
    and "\<forall>x\<ge>0. 0 \<le> sf x \<and> sf x \<le> 1 / 2"
    and "i < n" and "j < n"
  shows "np_ge (snd (P sf Z) ! i ! j) (fst (P sf Z) ! i ! j)"
proof -
  let ?g = "\<lambda>z. np_mul (np_sf sf (np_abs z)) (Fin 2)"
  let ?p = "map_matrix ?g Z"
  have p: "square n ?p" by (rule square_map_matrix [OF assms(1)])
  have len: "length (flatten ?p) = n * n" by (rule length_flatten_square [OF p])
  have prob: "list_all is_probability (flatten ?p)"
    using assms(2) p_value_is_probability [OF assms(3)]
    by (auto simp: flatten_def map_matrix_def list_all_iff)
  have idx: "i * n + j < length (flatten ?p)"
    using index_bound [OF assms(4,5)] len by simp
  have "snd (P sf Z) ! i ! j = fdrcorrection (flatten ?p) ! (i * n + j)"
    by (simp add: P_def Let_def shape_square [OF p]
        reshape_nth [OF _ assms(4,5)] length_fdrcorrection len)
  moreover have "fst (P sf Z) ! i ! j = flatten ?p ! (i * n + j)"
    by (simp add: P_def Let_def flatten_nth [OF p assms(4,5)])
  ultimately show ?thesis
    using fdrcorrection_ge [OF prob idx] by simp
qed

theorem FDR_P_ge_P_witness:
  "square 2 [[Fin 1, PInf], [Fin 99, Fin 1]] \<and>
   list_all (list_all (\<lambda>z. z \<noteq> NaN)) [[Fin 1, PInf], [Fin 99, Fin 1]] \<and>
   P (\<lambda>x. 1 / (2 + 2 * \<bar>x\<bar>)) [[Fin 1, PInf], [Fin 99, Fin 1]] =
     ([[Fin (1 / 2), Fin 0], [Fin (1 / 100), Fin (1 / 2)]],
      [[Fin (1 / 2), Fin 0], [Fin (1 / 50), Fin (1 / 2)]]) \<and>
   np_ge (snd (P (\<lambda>x. 1 / (2 + 2 * \<bar>x\<bar>)) [[Fin 1, PInf], [Fin 99, Fin 1]]) ! 1 ! 0)
         (fst (P (\<lambda>x. 1 / (2 + 2 * \<bar>x\<bar>)) [[Fin 1, PInf], [Fin 99, Fin 1]]) ! 1 ! 0)"
proof -
  have a: "square 2 [[Fin 1, PInf], [Fin 99, Fin 1]]" by (simp add: square_def)
  have b: "list_all (list_all (\<lambda>z. z \<noteq> NaN)) [[Fin 1, PInf], [Fin 99, Fin 1]]" by simp
  have c: "\<forall>x\<ge>0. 0 \<le> 1 / (2 + 2 * \<bar>x\<bar>) \<and> 1 / (2 + 2 * \<bar>x\<bar>) \<le> 1 / (2::real)"
    by (auto simp: field_simps)
  have d: "P (\<lambda>x. 1 / (2 + 2 * \<bar>x\<bar>)) [[Fin 1, PInf], [Fin 99, Fin 1]] =
     ([[Fin (1 / 2), Fin 0], [Fin (1 / 100), Fin (1 / 2)]],
      [[Fin (1 / 2), Fin 0], [Fin (1 / 50), Fin (1 / 2)]])"
    by code_simp
  have e: "(1::nat) < 2" and f: "(0::nat) < 2" by simp_all
  from FDR_P_ge_P [OF a b c e f] a b d show ?thesis by blast
qed

text \<open>
  Claim C7 as stated fails at this Z matrix, which has a NaN entry: the raw p-value
  at that entry is NaN, which no value is greater than or equal to, and here the
  corrected p-value is NaN at the other entries as well.
\<close>

theorem FDR_P_with_NaN_not_ge_P:
  "P (\<lambda>x. 1 / (2 + 2 * \<bar>x\<bar>)) [[Fin 1, NaN], [Fin 0, Fin 1]] =
     ([[Fin (1 / 2), NaN], [Fin 1, Fin (1 / 2)]], [[NaN, NaN], [NaN, NaN]]) \<and>
   \<not> np_ge (snd (P (\<lambda>x. 1 / (2 + 2 * \<bar>x\<bar>)) [[Fin 1, NaN], [Fin 0, Fin 1]]) ! 0 ! 1)
           (fst (P (\<lambda>x. 1 / (2 + 2 * \<bar>x\<bar>)) [[Fin 1, NaN], [Fin 0, Fin 1]]) ! 0 ! 1) \<and>
   \<not> np_ge (snd (P (\<lambda>x. 1 / (2 + 2 * \<bar>x\<bar>)) [[Fin 1, NaN], [Fin 0, Fin 1]]) ! 0 ! 0)
           (fst (P (\<lambda>x. 1 / (2 + 2 * \<bar>x\<bar>)) [[Fin 1, NaN], [Fin 0, Fin 1]]) ! 0 ! 0)"
proof -
  have "P (\<lambda>x. 1 / (2 + 2 * \<bar>x\<bar>)) [[Fin 1, NaN], [Fin 0, Fin 1]] =
     ([[Fin (1 / 2), NaN], [Fin 1, Fin (1 / 2)]], [[NaN, NaN], [NaN, NaN]])"
    by code_simp
  then show ?thesis by (simp add: np_ge_def)
qed

end
